theory Spec2Isabelle
  imports Main
begin

section \<open>Python values used by \<open>app.py\<close>\<close>

text \<open>
  A Python \<open>str\<close> is a sequence of Unicode code points, so a string is a list of
  natural numbers (\<open>len\<close> is \<open>length\<close>, a slice is \<open>take\<close>/\<open>drop\<close>). A \<open>bytes\<close>
  object is a list of numbers below 256. \<open>py\<close> turns an ASCII literal into such a
  string.
\<close>

type_synonym pystr = "nat list"
type_synonym pybytes = "nat list"

definition py :: "string \<Rightarrow> pystr" where
  "py s = map of_char s"

text \<open>
  Exceptions are values. \<open>ValueError\<close> carries which \<open>raise\<close> produced it: the one of
  \<open>extract_video_id\<close> (line 46 of \<open>app.py\<close>) or one of \<open>urllib.parse.urlsplit\<close>;
  \<open>json.JSONDecodeError\<close> is a subclass of \<open>ValueError\<close> in Python and is kept apart
  here only by its tag.
\<close>

datatype valmsg =
    VideoIdNotExtracted
  | InvalidIPv6URL
  | InvalidBracketedHost
  | NetlocNFKC
  | IntMaxStrDigits

datatype exn =
    ValueError valmsg
  | JSONDecodeError
  | IndexError
  | TypeError
  | AttributeError
  | UnicodeEncodeError
  | ProviderError

subsection \<open>Methods of \<open>str\<close>\<close>

text \<open>\<open>str.isspace\<close> on one character: the code points Python treats as whitespace.\<close>

definition isspace :: "nat \<Rightarrow> bool" where
  "isspace c =
     ((9 \<le> c \<and> c \<le> 13) \<or> (28 \<le> c \<and> c \<le> 32) \<or> c = 0x85 \<or> c = 0xA0 \<or> c = 0x1680
      \<or> (0x2000 \<le> c \<and> c \<le> 0x200A) \<or> c = 0x2028 \<or> c = 0x2029 \<or> c = 0x202F
      \<or> c = 0x205F \<or> c = 0x3000)"

text \<open>\<open>s.lstrip(chars)\<close>, \<open>s.rstrip(chars)\<close>, \<open>s.strip(chars)\<close> with the set of
  characters given as a predicate; \<open>s.strip()\<close> strips whitespace.\<close>

definition lstrip_with :: "(nat \<Rightarrow> bool) \<Rightarrow> pystr \<Rightarrow> pystr" where
  "lstrip_with P s = dropWhile P s"

definition rstrip_with :: "(nat \<Rightarrow> bool) \<Rightarrow> pystr \<Rightarrow> pystr" where
  "rstrip_with P s = rev (dropWhile P (rev s))"

definition strip_with :: "(nat \<Rightarrow> bool) \<Rightarrow> pystr \<Rightarrow> pystr" where
  "strip_with P s = rstrip_with P (lstrip_with P s)"

definition strip :: "pystr \<Rightarrow> pystr" where
  "strip s = strip_with isspace s"

text \<open>\<open>s.split(sep)\<close> for a one-character separator: never the empty list.\<close>

fun split :: "nat \<Rightarrow> pystr \<Rightarrow> pystr list" where
  "split sep [] = [[]]"
| "split sep (c # cs) =
     (if c = sep then [] # split sep cs
      else (case split sep cs of
              [] \<Rightarrow> [[c]]
            | w # ws \<Rightarrow> (c # w) # ws))"

text \<open>\<open>s.partition(sep)\<close> for a one-character separator: the part before the first
  separator, whether there is one, and the part after it.\<close>

definition partition_at :: "nat \<Rightarrow> pystr \<Rightarrow> pystr \<times> bool \<times> pystr" where
  "partition_at sep s =
     (if sep \<in> set s
      then (takeWhile (\<lambda>c. c \<noteq> sep) s, True, tl (dropWhile (\<lambda>c. c \<noteq> sep) s))
      else (s, False, []))"

text \<open>\<open>xs[0]\<close>: \<open>IndexError\<close> on the empty list.\<close>

definition index0 :: "'a list \<Rightarrow> exn + 'a" where
  "index0 xs = (case xs of [] \<Rightarrow> Inl IndexError | x # _ \<Rightarrow> Inr x)"

section \<open>The standard library, as far as \<open>app.py\<close> calls it\<close>

subsection \<open>The regular expressions\<close>

text \<open>The character class \<^verbatim>\<open>[A-Za-z0-9_-]\<close>.\<close>

definition is_id_char :: "nat \<Rightarrow> bool" where
  "is_id_char c =
     ((65 \<le> c \<and> c \<le> 90) \<or> (97 \<le> c \<and> c \<le> 122) \<or> (48 \<le> c \<and> c \<le> 57) \<or> c = 95 \<or> c = 45)"

text \<open>\<^verbatim>\<open>re.fullmatch(r"[A-Za-z0-9_-]{11}", s)\<close> is not \<open>None\<close>: the whole string is
  eleven characters of the class.\<close>

definition fullmatch_id :: "pystr \<Rightarrow> bool" where
  "fullmatch_id s = (length s = 11 \<and> list_all is_id_char s)"

text \<open>\<^verbatim>\<open>re.search(r"/shorts/([A-Za-z0-9_-]{11})", s)\<close>: the match object's group 1 at
  the leftmost position where the pattern matches, \<open>None\<close> when there is none.\<close>

fun search_shorts :: "pystr \<Rightarrow> pystr option" where
  "search_shorts [] = None"
| "search_shorts (c # cs) =
     (if take 8 (c # cs) = py ''/shorts/'' \<and> fullmatch_id (take 11 (drop 8 (c # cs)))
      then Some (take 11 (drop 8 (c # cs)))
      else search_shorts cs)"

subsection \<open>UTF-8\<close>

text \<open>
  \<open>bytes.decode('utf-8', 'replace')\<close>: a well-formed sequence gives its code point; an
  ill-formed one gives U+FFFD for its longest prefix that starts a well-formed sequence
  (one byte when there is none), and decoding goes on after that prefix.
\<close>

definition is_cont :: "nat \<Rightarrow> bool" where
  "is_cont b = (0x80 \<le> b \<and> b \<le> 0xBF)"

text \<open>The second byte a lead byte allows (overlong forms, surrogates and code points
  above U+10FFFF are ill-formed).\<close>

definition second_ok :: "nat \<Rightarrow> nat \<Rightarrow> bool" where
  "second_ok b b2 =
     (if b = 0xE0 then 0xA0 \<le> b2 \<and> b2 \<le> 0xBF
      else if b = 0xED then 0x80 \<le> b2 \<and> b2 \<le> 0x9F
      else if b = 0xF0 then 0x90 \<le> b2 \<and> b2 \<le> 0xBF
      else if b = 0xF4 then 0x80 \<le> b2 \<and> b2 \<le> 0x8F
      else is_cont b2)"

definition replacement :: nat where
  "replacement = 0xFFFD"

fun utf8_decode :: "pybytes \<Rightarrow> pystr" where
  "utf8_decode [] = []"
| "utf8_decode (b # bs) =
     (if b < 0x80 then b # utf8_decode bs
      else if b < 0xC2 \<or> 0xF5 \<le> b then replacement # utf8_decode bs
      else if b < 0xE0 then
        (case bs of
           [] \<Rightarrow> [replacement]
         | b2 # r2 \<Rightarrow>
             if is_cont b2 then ((b - 0xC0) * 64 + (b2 - 0x80)) # utf8_decode r2
             else replacement # utf8_decode bs)
      else if b < 0xF0 then
        (case bs of
           [] \<Rightarrow> [replacement]
         | b2 # r2 \<Rightarrow>
             if \<not> second_ok b b2 then replacement # utf8_decode bs
             else (case r2 of
                     [] \<Rightarrow> [replacement]
                   | b3 # r3 \<Rightarrow>
                       if is_cont b3
                       then ((b - 0xE0) * 4096 + (b2 - 0x80) * 64 + (b3 - 0x80)) # utf8_decode r3
                       else replacement # utf8_decode r2))
      else
        (case bs of
           [] \<Rightarrow> [replacement]
         | b2 # r2 \<Rightarrow>
             if \<not> second_ok b b2 then replacement # utf8_decode bs
             else (case r2 of
                     [] \<Rightarrow> [replacement]
                   | b3 # r3 \<Rightarrow>
                       if \<not> is_cont b3 then replacement # utf8_decode r2
                       else (case r3 of
                               [] \<Rightarrow> [replacement]
                             | b4 # r4 \<Rightarrow>
                                 if is_cont b4
                                 then ((b - 0xF0) * 262144 + (b2 - 0x80) * 4096
                                       + (b3 - 0x80) * 64 + (b4 - 0x80)) # utf8_decode r4
                                 else replacement # utf8_decode r3))))"

text \<open>
  \<open>str.encode('utf-8', 'strict')\<close>: \<open>UnicodeEncodeError\<close> on a surrogate code point
  (U+D800 to U+DFFF), which a Python string can hold. A code point is below 0x110000.
\<close>

definition is_surrogate :: "nat \<Rightarrow> bool" where
  "is_surrogate c = (0xD800 \<le> c \<and> c \<le> 0xDFFF)"

definition utf8_encode_char :: "nat \<Rightarrow> pybytes" where
  "utf8_encode_char c =
     (if c < 0x80 then [c]
      else if c < 0x800 then [0xC0 + c div 64, 0x80 + c mod 64]
      else if c < 0x10000 then [0xE0 + c div 4096, 0x80 + (c div 64) mod 64, 0x80 + c mod 64]
      else [0xF0 + c div 262144, 0x80 + (c div 4096) mod 64, 0x80 + (c div 64) mod 64,
            0x80 + c mod 64])"

fun utf8_encode :: "pystr \<Rightarrow> exn + pybytes" where
  "utf8_encode [] = Inr []"
| "utf8_encode (c # cs) =
     (if is_surrogate c then Inl UnicodeEncodeError
      else (case utf8_encode cs of
              Inl e \<Rightarrow> Inl e
            | Inr bs \<Rightarrow> Inr (utf8_encode_char c @ bs)))"

subsection \<open>\<open>urllib.parse\<close>: percent-encoding\<close>

definition is_hexdig :: "nat \<Rightarrow> bool" where
  "is_hexdig c = ((48 \<le> c \<and> c \<le> 57) \<or> (65 \<le> c \<and> c \<le> 70) \<or> (97 \<le> c \<and> c \<le> 102))"

definition hexval :: "nat \<Rightarrow> nat" where
  "hexval c = (if c \<le> 57 then c - 48 else if c \<le> 70 then c - 55 else c - 87)"

text \<open>
  \<open>unquote_to_bytes\<close> on an ASCII string: the string is cut at every \<open>%\<close>, and a piece
  that starts with two hexadecimal digits gives the byte they write and the rest of the
  piece; any other piece keeps its \<open>%\<close>. Scanning from the left does the same, since a
  \<open>%\<close> is no hexadecimal digit.
\<close>

fun unquote_to_bytes :: "pystr \<Rightarrow> pybytes" where
  "unquote_to_bytes [] = []"
| "unquote_to_bytes (c # cs) =
     (if c = 37 then
        (case cs of
           a # b # rest \<Rightarrow>
             if is_hexdig a \<and> is_hexdig b then (hexval a * 16 + hexval b) # unquote_to_bytes rest
             else 37 # unquote_to_bytes cs
         | _ \<Rightarrow> 37 # unquote_to_bytes cs)
      else c # unquote_to_bytes cs)"

definition isascii :: "nat \<Rightarrow> bool" where
  "isascii c = (c < 128)"

text \<open>
  \<open>unquote(string)\<close> with the defaults \<open>encoding='utf-8', errors='replace'\<close>: a string
  with no \<open>%\<close> is returned as it is; otherwise every maximal run of ASCII characters is
  unquoted to bytes and decoded, and the characters outside ASCII stay.
\<close>

function unquote_runs :: "pystr \<Rightarrow> pystr" where
  "unquote_runs [] = []"
| "unquote_runs (c # cs) =
     (if isascii c
      then utf8_decode (unquote_to_bytes (takeWhile isascii (c # cs)))
           @ unquote_runs (dropWhile isascii cs)
      else c # unquote_runs cs)"
  by pat_completeness auto
termination
  by (relation "measure length") (auto simp: less_Suc_eq_le length_dropWhile_le)

definition unquote :: "pystr \<Rightarrow> pystr" where
  "unquote s = (if 37 \<notin> set s then s else unquote_runs s)"

text \<open>\<open>unquote_plus\<close>: \<open>+\<close> becomes a space first.\<close>

definition unquote_plus :: "pystr \<Rightarrow> pystr" where
  "unquote_plus s = unquote (map (\<lambda>c. if c = 43 then 32 else c) s)"

text \<open>
  \<open>quote(string)\<close> with the default \<open>safe='/'\<close>: the string is encoded as UTF-8, and
  every byte outside \<^verbatim>\<open>A-Za-z0-9_.-~/\<close> is written as \<open>%\<close> and two upper-case
  hexadecimal digits.
\<close>

definition is_safe :: "nat \<Rightarrow> bool" where
  "is_safe b =
     ((65 \<le> b \<and> b \<le> 90) \<or> (97 \<le> b \<and> b \<le> 122) \<or> (48 \<le> b \<and> b \<le> 57)
      \<or> b = 95 \<or> b = 46 \<or> b = 45 \<or> b = 126 \<or> b = 47)"

definition hexdigit :: "nat \<Rightarrow> nat" where
  "hexdigit n = (if n < 10 then 48 + n else 55 + n)"

definition quote_byte :: "nat \<Rightarrow> pystr" where
  "quote_byte b = (if is_safe b then [b] else [37, hexdigit (b div 16), hexdigit (b mod 16)])"

definition quote_from_bytes :: "pybytes \<Rightarrow> pystr" where
  "quote_from_bytes bs = concat (map quote_byte bs)"

definition quote :: "pystr \<Rightarrow> exn + pystr" where
  "quote s =
     (case utf8_encode s of
        Inl e \<Rightarrow> Inl e
      | Inr bs \<Rightarrow> Inr (quote_from_bytes bs))"

subsection \<open>\<open>urllib.parse\<close>: splitting a URL\<close>

text \<open>
  \<open>urlsplit\<close> calls two parts of the library that are tables rather than string
  processing: the check of a bracketed host (\<open>ipaddress.ip_address\<close> and the IPvFuture
  pattern) and Unicode's NFKC normalisation. Both are parameters of the model, and
  every theorem below holds whatever they are: \<open>bracketed_host_ok L nl\<close> says that
  the library accepts the bracketed host of the network location \<open>nl\<close>, and \<open>nfkc L s\<close>
  is \<open>unicodedata.normalize('NFKC', s)\<close>.
\<close>

record stdlib =
  bracketed_host_ok :: "pystr \<Rightarrow> bool"
  nfkc :: "pystr \<Rightarrow> pystr"

text \<open>A library for closed examples: it accepts every bracketed host, and its
  normalisation changes nothing.\<close>

definition plain_lib :: stdlib where
  "plain_lib = \<lparr>bracketed_host_ok = (\<lambda>nl. True), nfkc = (\<lambda>s. s)\<rparr>"

record parse_result =
  scheme :: pystr
  netloc :: pystr
  path :: pystr
  params :: pystr
  query :: pystr
  fragment :: pystr

definition is_ascii_alpha :: "nat \<Rightarrow> bool" where
  "is_ascii_alpha c = ((65 \<le> c \<and> c \<le> 90) \<or> (97 \<le> c \<and> c \<le> 122))"

text \<open>\<open>scheme_chars\<close>: letters, digits and \<^verbatim>\<open>+-.\<close>\<close>

definition is_scheme_char :: "nat \<Rightarrow> bool" where
  "is_scheme_char c =
     (is_ascii_alpha c \<or> (48 \<le> c \<and> c \<le> 57) \<or> c = 43 \<or> c = 45 \<or> c = 46)"

definition lower_char :: "nat \<Rightarrow> nat" where
  "lower_char c = (if 65 \<le> c \<and> c \<le> 90 then c + 32 else c)"

text \<open>Lines 486 to 492 of \<open>urlsplit\<close>: a scheme is what stands before the first colon,
  when that is not empty, starts with an ASCII letter and holds scheme characters
  only.\<close>

definition split_scheme :: "pystr \<Rightarrow> pystr \<times> pystr" where
  "split_scheme url =
     (let pre = takeWhile (\<lambda>c. c \<noteq> 58) url in
      if 58 \<in> set url \<and> pre \<noteq> [] \<and> is_ascii_alpha (hd pre) \<and> list_all is_scheme_char pre
      then (map lower_char pre, tl (dropWhile (\<lambda>c. c \<noteq> 58) url))
      else ([], url))"

text \<open>\<open>_splitnetloc(url, 2)\<close>: the network location runs from index 2 to the first of
  \<^verbatim>\<open>/?#\<close>\<close>

definition is_netloc_delim :: "nat \<Rightarrow> bool" where
  "is_netloc_delim c = (c = 47 \<or> c = 63 \<or> c = 35)"

definition splitnetloc :: "pystr \<Rightarrow> pystr \<times> pystr" where
  "splitnetloc url =
     (takeWhile (\<lambda>c. \<not> is_netloc_delim c) (drop 2 url),
      dropWhile (\<lambda>c. \<not> is_netloc_delim c) (drop 2 url))"

text \<open>\<open>_checknetloc\<close> raises: the network location is not ASCII, and normalising it
  (without its \<^verbatim>\<open>@:#?\<close>) changes it and brings in one of \<^verbatim>\<open>/?#@:\<close>\<close>

definition checknetloc_raises :: "stdlib \<Rightarrow> pystr \<Rightarrow> bool" where
  "checknetloc_raises L nl =
     (nl \<noteq> [] \<and> \<not> list_all isascii nl
      \<and> (let n = filter (\<lambda>c. c \<noteq> 64 \<and> c \<noteq> 58 \<and> c \<noteq> 35 \<and> c \<noteq> 63) nl;
              netloc2 = nfkc L n
          in n \<noteq> netloc2 \<and> list_ex (\<lambda>c. c \<in> set netloc2) (py ''/?#@:'')))"

definition urlsplit :: "stdlib \<Rightarrow> pystr \<Rightarrow> exn + parse_result" where
  "urlsplit L url0 =
     (let url1 = filter (\<lambda>c. c \<noteq> 9 \<and> c \<noteq> 13 \<and> c \<noteq> 10) (lstrip_with (\<lambda>c. c \<le> 32) url0);
          (sch, url2) = split_scheme url1;
          (nl, url3) = (if take 2 url2 = py ''//'' then splitnetloc url2 else ([], url2))
      in if (91 \<in> set nl \<and> 93 \<notin> set nl) \<or> (93 \<in> set nl \<and> 91 \<notin> set nl)
         then Inl (ValueError InvalidIPv6URL)
         else if 91 \<in> set nl \<and> 93 \<in> set nl \<and> \<not> bracketed_host_ok L nl
         then Inl (ValueError InvalidBracketedHost)
         else
           (let (url4, has_hash, frag) = partition_at 35 url3;
                (url5, has_qm, qry) = partition_at 63 url4
            in if checknetloc_raises L nl then Inl (ValueError NetlocNFKC)
               else Inr \<lparr>scheme = sch, netloc = nl, path = url5, params = [],
                         query = qry, fragment = frag\<rparr>))"

definition uses_params :: "pystr list" where
  "uses_params =
     [[], py ''ftp'', py ''hdl'', py ''prospero'', py ''http'', py ''imap'', py ''https'',
      py ''shttp'', py ''rtsp'', py ''rtsps'', py ''rtspu'', py ''sip'', py ''sips'', py ''mms'',
      py ''sftp'', py ''tel'']"

text \<open>
  \<open>_splitparams(url)\<close>: with a \<open>/\<close> in the path the parameters start at the first
  \<open>;\<close> after the last \<open>/\<close>; with none at the first \<open>;\<close>. (Without a \<open>;\<close> in the second
  case \<open>find\<close> is \<open>-1\<close> and the slices are \<open>url[:-1]\<close> and \<open>url\<close>; \<open>urlparse\<close> never
  calls it so.)
\<close>

definition splitparams :: "pystr \<Rightarrow> pystr \<times> pystr" where
  "splitparams url =
     (if 47 \<in> set url then
        (let before = rev (dropWhile (\<lambda>c. c \<noteq> 47) (rev url));
             after = rev (takeWhile (\<lambda>c. c \<noteq> 47) (rev url))
         in if 59 \<in> set after
            then (before @ takeWhile (\<lambda>c. c \<noteq> 59) after, tl (dropWhile (\<lambda>c. c \<noteq> 59) after))
            else (url, []))
      else if 59 \<in> set url
      then (takeWhile (\<lambda>c. c \<noteq> 59) url, tl (dropWhile (\<lambda>c. c \<noteq> 59) url))
      else (butlast url, url))"

definition urlparse :: "stdlib \<Rightarrow> pystr \<Rightarrow> exn + parse_result" where
  "urlparse L url =
     (case urlsplit L url of
        Inl e \<Rightarrow> Inl e
      | Inr r \<Rightarrow>
          if scheme r \<in> set uses_params \<and> 59 \<in> set (path r)
          then (let (p, ps) = splitparams (path r) in Inr (r\<lparr>path := p, params := ps\<rparr>))
          else Inr r)"

subsection \<open>\<open>urllib.parse\<close>: the query string\<close>

text \<open>
  \<open>parse_qsl(qs)\<close> with its defaults: the fields are separated by \<open>&\<close>; an empty field
  and a field with an empty value (or no \<open>=\<close>) are skipped; name and value are unquoted.
\<close>

fun parse_fields :: "pystr list \<Rightarrow> (pystr \<times> pystr) list" where
  "parse_fields [] = []"
| "parse_fields (name_value # pairs) =
     (if name_value \<noteq> [] then
        (let (name, has_eq, val) = partition_at 61 name_value in
         if val \<noteq> [] then (unquote_plus name, unquote_plus val) # parse_fields pairs
         else parse_fields pairs)
      else parse_fields pairs)"

definition parse_qsl :: "pystr \<Rightarrow> (pystr \<times> pystr) list" where
  "parse_qsl qs = (if qs = [] then [] else parse_fields (split 38 qs))"

text \<open>\<open>parse_qs\<close> collects the values of each name in a dictionary, here an association
  list with one entry for each name, in the order of first occurrence.\<close>

fun dict_append :: "(pystr \<times> pystr list) list \<Rightarrow> pystr \<Rightarrow> pystr \<Rightarrow> (pystr \<times> pystr list) list" where
  "dict_append [] name v = [(name, [v])]"
| "dict_append ((k, vs) # d) name v =
     (if k = name then (k, vs @ [v]) # d else (k, vs) # dict_append d name v)"

definition parse_qs :: "pystr \<Rightarrow> (pystr \<times> pystr list) list" where
  "parse_qs qs = foldl (\<lambda>d (name, v). dict_append d name v) [] (parse_qsl qs)"

section \<open>\<open>extract_video_id\<close> (lines 13 to 46)\<close>

text \<open>
  Each block of the function is a definition that gives the value the block returns,
  \<open>None\<close> when control falls through to the next block.

  Lines 29 to 32:
  \<^verbatim>\<open>
    if u.netloc in {"youtu.be", "www.youtu.be"}:
        vid = u.path.strip("/").split("/")[0]
        if re.fullmatch(r"[A-Za-z0-9_-]{11}", vid or ""):
            return vid
  \<close>
\<close>

definition short_link_block :: "parse_result \<Rightarrow> exn + pystr option" where
  "short_link_block u =
     (if netloc u = py ''youtu.be'' \<or> netloc u = py ''www.youtu.be'' then
        (case index0 (split 47 (strip_with (\<lambda>c. c = 47) (path u))) of
           Inl e \<Rightarrow> Inl e
         | Inr vid \<Rightarrow> if fullmatch_id vid then Inr (Some vid) else Inr None)
      else Inr None)"

text \<open>
  Lines 35 to 39:
  \<^verbatim>\<open>
    if u.path == "/watch":
        qs = parse_qs(u.query)
        vid = (qs.get("v") or [""])[0]
        if re.fullmatch(r"[A-Za-z0-9_-]{11}", vid or ""):
            return vid
  \<close>
\<close>

definition watch_block :: "parse_result \<Rightarrow> exn + pystr option" where
  "watch_block u =
     (if path u = py ''/watch'' then
        (let qs = parse_qs (query u) in
         case index0 (case map_of qs (py ''v'') of
                        None \<Rightarrow> [[]]
                      | Some vs \<Rightarrow> if vs = [] then [[]] else vs) of
           Inl e \<Rightarrow> Inl e
         | Inr vid \<Rightarrow> if fullmatch_id vid then Inr (Some vid) else Inr None)
      else Inr None)"

text \<open>
  Lines 42 to 46:
  \<^verbatim>\<open>
    m = re.search(r"/shorts/([A-Za-z0-9_-]{11})", u.path)
    if m:
        return m.group(1)
    raise ValueError(...)
  \<close>
\<close>

definition shorts_block :: "parse_result \<Rightarrow> exn + pystr" where
  "shorts_block u =
     (case search_shorts (path u) of
        Some vid \<Rightarrow> Inr vid
      | None \<Rightarrow> Inl (ValueError VideoIdNotExtracted))"

definition extract_video_id :: "stdlib \<Rightarrow> pystr \<Rightarrow> exn + pystr" where
  "extract_video_id L url0 =
     (let url = strip url0 in
      if fullmatch_id url then Inr url
      else
        (case urlparse L url of
           Inl e \<Rightarrow> Inl e
         | Inr u \<Rightarrow>
             (case short_link_block u of
                Inl e \<Rightarrow> Inl e
              | Inr (Some vid) \<Rightarrow> Inr vid
              | Inr None \<Rightarrow>
                  (case watch_block u of
                     Inl e \<Rightarrow> Inl e
                   | Inr (Some vid) \<Rightarrow> Inr vid
                   | Inr None \<Rightarrow> shorts_block u))))"

section \<open>The shapes of a video reference, in the words of the specification\<close>

text \<open>
  The specification lists four shapes of an accepted reference. They are written here
  from its sentences, not from the code, and compared with \<open>extract_video_id\<close> below.
  ``Parses as a URL'' is \<open>urlparse\<close> returning a result for the trimmed input.
\<close>

text \<open>Shape 1: the input, trimmed of surrounding whitespace, is itself a bare
  11-character identifier.\<close>

definition shape_bare :: "pystr \<Rightarrow> bool" where
  "shape_bare url = fullmatch_id (strip url)"

text \<open>The first path segment: what stands between the slash that opens the path and the
  next slash. The first segment of \<open>/a/b\<close> is \<open>a\<close>, that of \<open>//a\<close> is empty.\<close>

definition first_path_segment :: "pystr \<Rightarrow> pystr" where
  "first_path_segment p = takeWhile (\<lambda>c. c \<noteq> 47) (if p \<noteq> [] \<and> hd p = 47 then tl p else p)"

text \<open>Shape 2: a URL whose host is one of the two spellings of the short-link domain and
  whose first path segment is an identifier.\<close>

definition shape_short_link :: "stdlib \<Rightarrow> pystr \<Rightarrow> bool" where
  "shape_short_link L url =
     (\<exists>u. urlparse L (strip url) = Inr u
          \<and> (netloc u = py ''youtu.be'' \<or> netloc u = py ''www.youtu.be'')
          \<and> fullmatch_id (first_path_segment (path u)))"

text \<open>The value of a query parameter: that of the first field of the query with this
  name.\<close>

definition query_value :: "pystr \<Rightarrow> pystr \<Rightarrow> pystr option" where
  "query_value q name = map_option snd (find (\<lambda>(n, v). n = name) (parse_qsl q))"

text \<open>Shape 3: a URL whose path is exactly \<open>/watch\<close> and whose query parameter \<open>v\<close> is
  an identifier.\<close>

definition shape_watch :: "stdlib \<Rightarrow> pystr \<Rightarrow> bool" where
  "shape_watch L url =
     (\<exists>u vid. urlparse L (strip url) = Inr u \<and> path u = py ''/watch''
          \<and> query_value (query u) (py ''v'') = Some vid \<and> fullmatch_id vid)"

text \<open>Shape 4: a URL whose path contains a segment \<open>shorts\<close> followed by a segment that
  is an identifier: \<open>/shorts/\<close>, eleven characters of the class, and then the end of the
  path or the slash that opens the next segment.\<close>

definition shape_shorts :: "stdlib \<Rightarrow> pystr \<Rightarrow> bool" where
  "shape_shorts L url =
     (\<exists>u pre vid rest. urlparse L (strip url) = Inr u
          \<and> path u = pre @ py ''/shorts/'' @ vid @ rest \<and> fullmatch_id vid
          \<and> (rest = [] \<or> hd rest = 47))"

text \<open>Shape 4 decided on a path: at some position stand \<open>/shorts/\<close>, eleven characters
  of the class, and the end of the path or a slash. \<open>shorts_segment_in_iff\<close> below shows
  that this is the condition of \<open>shape_shorts\<close> on the path.\<close>

fun shorts_segment_in :: "pystr \<Rightarrow> bool" where
  "shorts_segment_in [] = False"
| "shorts_segment_in (c # cs) =
     ((take 8 (c # cs) = py ''/shorts/'' \<and> fullmatch_id (take 11 (drop 8 (c # cs)))
        \<and> (drop 19 (c # cs) = [] \<or> hd (drop 19 (c # cs)) = 47))
      \<or> shorts_segment_in cs)"

definition recognised :: "stdlib \<Rightarrow> pystr \<Rightarrow> bool" where
  "recognised L url =
     (shape_bare url \<or> shape_short_link L url \<or> shape_watch L url \<or> shape_shorts L url)"

subsection \<open>Where the code accepts more than the four shapes\<close>

text \<open>
  Line 30 strips every slash from both ends of the path before it takes the first
  element of the split: \<^verbatim>\<open>u.path.strip("/").split("/")[0]\<close>. What it tests is the first
  segment that follows all the leading slashes of the path.
\<close>

definition stripped_segment :: "pystr \<Rightarrow> pystr" where
  "stripped_segment p = takeWhile (\<lambda>c. c \<noteq> 47) (dropWhile (\<lambda>c. c = 47) p)"

text \<open>A short-link URL in the sense of line 30: the identifier may follow several
  slashes.\<close>

definition short_link_stripped :: "stdlib \<Rightarrow> pystr \<Rightarrow> bool" where
  "short_link_stripped L url =
     (\<exists>u. urlparse L (strip url) = Inr u
          \<and> (netloc u = py ''youtu.be'' \<or> netloc u = py ''www.youtu.be'')
          \<and> fullmatch_id (stripped_segment (path u)))"

text \<open>A path in which \<open>/shorts/\<close> and eleven characters of the class are followed by a
  further character of the same segment: the token after \<open>/shorts/\<close> is longer than an
  identifier, or is continued by a character outside the class.\<close>

definition shorts_overrun :: "stdlib \<Rightarrow> pystr \<Rightarrow> bool" where
  "shorts_overrun L url =
     (\<exists>u pre vid c rest. urlparse L (strip url) = Inr u
          \<and> path u = pre @ py ''/shorts/'' @ vid @ c # rest \<and> fullmatch_id vid \<and> c \<noteq> 47)"

section \<open>\<open>fetch_transcript_text\<close> (lines 49 to 53)\<close>

text \<open>
  A snippet of the transcript provider; only its text is read. The provider is a
  parameter: it is given the identifier and the languages, and returns the snippets or
  raises.
\<close>

record snippet =
  snippet_text :: pystr

text \<open>\<open>sep.join(items)\<close>\<close>

fun join :: "pystr \<Rightarrow> pystr list \<Rightarrow> pystr" where
  "join sep [] = []"
| "join sep [x] = x"
| "join sep (x # y # ys) = x @ sep @ join sep (y # ys)"

definition default_languages :: "pystr list" where
  "default_languages = [py ''tr'', py ''tr-TR'', py ''en'']"

text \<open>
  \<^verbatim>\<open>return " ".join(s.text.strip() for s in fetched.snippets if s.text).strip()\<close>
\<close>

definition join_snippets :: "snippet list \<Rightarrow> pystr" where
  "join_snippets snippets =
     strip (join (py '' '')
       (map (\<lambda>s. strip (snippet_text s)) (filter (\<lambda>s. snippet_text s \<noteq> []) snippets)))"

definition fetch_transcript_text ::
  "(pystr \<Rightarrow> pystr list \<Rightarrow> exn + snippet list) \<Rightarrow> pystr \<Rightarrow> pystr list \<Rightarrow> exn + pystr" where
  "fetch_transcript_text provider video_id languages =
     (case provider video_id languages of
        Inl e \<Rightarrow> Inl e
      | Inr snippets \<Rightarrow> Inr (join_snippets snippets))"

subsection \<open>The specification's words for the transcript\<close>

text \<open>The specification's join: the first text, and every later text after one space.\<close>

definition spec_join :: "pystr list \<Rightarrow> pystr" where
  "spec_join ts = (case ts of [] \<Rightarrow> [] | t # ts' \<Rightarrow> t @ concat (map (\<lambda>x. 32 # x) ts'))"

text \<open>Two adjacent spaces somewhere in a string.\<close>

fun has_double_space :: "pystr \<Rightarrow> bool" where
  "has_double_space (x # y # r) = ((x = 32 \<and> y = 32) \<or> has_double_space (y # r))"
| "has_double_space _ = False"

text \<open>Snippets for closed examples; the second list holds a snippet of one space.\<close>

definition example_snippets :: "snippet list" where
  "example_snippets =
     [\<lparr>snippet_text = py ''Hello ''\<rparr>, \<lparr>snippet_text = []\<rparr>, \<lparr>snippet_text = py '' world''\<rparr>]"

definition blank_snippets :: "snippet list" where
  "blank_snippets =
     [\<lparr>snippet_text = py ''a''\<rparr>, \<lparr>snippet_text = py '' ''\<rparr>, \<lparr>snippet_text = py ''b''\<rparr>]"

section \<open>\<open>x_intent_url\<close> (lines 56 to 61)\<close>

definition intent_prefix :: pystr where
  "intent_prefix = py ''https://twitter.com/intent/tweet?text=''"

definition x_intent_url :: "pystr \<Rightarrow> exn + pystr" where
  "x_intent_url tweet_text =
     (case quote tweet_text of
        Inl e \<Rightarrow> Inl e
      | Inr encoded \<Rightarrow> Inr (intent_prefix @ encoded))"

text \<open>
  A Unicode scalar value: a code point that is not a surrogate. A Python string can hold
  surrogates (\<open>json.loads\<close> reads the escape \<^verbatim>\<open>\ud800\<close> as one), and UTF-8 has no encoding
  for them.
\<close>

definition is_scalar :: "nat \<Rightarrow> bool" where
  "is_scalar c = (c < 0x110000 \<and> \<not> is_surrogate c)"

section \<open>\<open>json.loads\<close>\<close>

text \<open>
  The values \<open>json.loads\<close> builds. A number with a fraction or an exponent, and each of
  the constants \<open>NaN\<close>, \<open>Infinity\<close> and \<open>-Infinity\<close>, is a Python \<open>float\<close>: the model keeps
  its text, since \<open>app.py\<close> only asks whether the value is a string. A dictionary is an
  association list with one entry for each key, in the order of first insertion.
\<close>

datatype json =
    JNull
  | JBool bool
  | JInt int
  | JFloat pystr
  | JString pystr
  | JArray "json list"
  | JObject "(pystr \<times> json) list"

text \<open>\<open>d[k] = v\<close> and \<open>dict(pairs)\<close>: a later value replaces an earlier one of the same
  key, at the earlier one's place.\<close>

fun dict_set :: "(pystr \<times> 'v) list \<Rightarrow> pystr \<Rightarrow> 'v \<Rightarrow> (pystr \<times> 'v) list" where
  "dict_set [] k v = [(k, v)]"
| "dict_set ((k', v') # d) k v =
     (if k' = k then (k', v) # d else (k', v') # dict_set d k v)"

definition dict_of_pairs :: "(pystr \<times> 'v) list \<Rightarrow> (pystr \<times> 'v) list" where
  "dict_of_pairs ps = foldl (\<lambda>d (k, v). dict_set d k v) [] ps"

subsection \<open>The scanner\<close>

text \<open>The scanner reads a suffix of the text and returns the value with the suffix that
  is left. Every failure of the decoder is a \<open>JSONDecodeError\<close>. The characters the
  decoder skips are space, tab, line feed and carriage return.\<close>

definition is_json_ws :: "nat \<Rightarrow> bool" where
  "is_json_ws c = (c = 32 \<or> c = 9 \<or> c = 10 \<or> c = 13)"

definition skip_ws :: "pystr \<Rightarrow> pystr" where
  "skip_ws s = dropWhile is_json_ws s"

definition is_digit :: "nat \<Rightarrow> bool" where
  "is_digit c = (48 \<le> c \<and> c \<le> 57)"

text \<open>Four hexadecimal digits of a \<^verbatim>\<open>\uXXXX\<close> escape.\<close>

definition hex4 :: "pystr \<Rightarrow> (nat \<times> pystr) option" where
  "hex4 s =
     (case s of
        a # b # c # d # r \<Rightarrow>
          if is_hexdig a \<and> is_hexdig b \<and> is_hexdig c \<and> is_hexdig d
          then Some (((hexval a * 16 + hexval b) * 16 + hexval c) * 16 + hexval d, r)
          else None
      | _ \<Rightarrow> None)"

text \<open>The escapes other than \<^verbatim>\<open>\u\<close>: the table \<open>BACKSLASH\<close>.\<close>

definition backslash :: "nat \<Rightarrow> nat option" where
  "backslash c =
     (if c = 34 then Some 34 else if c = 92 then Some 92 else if c = 47 then Some 47
      else if c = 98 then Some 8 else if c = 102 then Some 12 else if c = 110 then Some 10
      else if c = 114 then Some 13 else if c = 116 then Some 9 else None)"

definition cons_char :: "nat \<Rightarrow> exn + (pystr \<times> pystr) \<Rightarrow> exn + (pystr \<times> pystr)" where
  "cons_char c res = (case res of Inl e \<Rightarrow> Inl e | Inr (s, r) \<Rightarrow> Inr (c # s, r))"

lemma hex4_length: "hex4 s = Some (v, r) \<Longrightarrow> length r < length s"
  by (auto simp: hex4_def split: list.splits if_splits)

lemma skip_ws_length: "skip_ws s = d # r \<Longrightarrow> length r < length s"
proof -
  assume "skip_ws s = d # r"
  then have "Suc (length r) = length (dropWhile is_json_ws s)"
    by (simp add: skip_ws_def)
  also have "\<dots> \<le> length s"
    by (rule length_dropWhile_le)
  finally show ?thesis
    by simp
qed

text \<open>
  \<open>scanstring\<close> (strict), from the character after the opening quote: the string runs
  to the next unescaped quote; a control character in it is an error; a \<^verbatim>\<open>\u\<close> escape
  of a high surrogate followed by one of a low surrogate is the one code point the pair
  encodes, and any other surrogate escape stays a surrogate code point.
\<close>

function scanstring :: "pystr \<Rightarrow> exn + (pystr \<times> pystr)" where
  "scanstring [] = Inl JSONDecodeError"
| "scanstring (c # cs) =
     (if c = 34 then Inr ([], cs)
      else if c = 92 then
        (case cs of
           [] \<Rightarrow> Inl JSONDecodeError
         | esc # r \<Rightarrow>
             if esc \<noteq> 117 then
               (case backslash esc of
                  None \<Rightarrow> Inl JSONDecodeError
                | Some ch \<Rightarrow> cons_char ch (scanstring r))
             else
               (case hex4 r of
                  None \<Rightarrow> Inl JSONDecodeError
                | Some (uni, r1) \<Rightarrow>
                    if 0xD800 \<le> uni \<and> uni \<le> 0xDBFF \<and> take 2 r1 = [92, 117] then
                      (case hex4 (drop 2 r1) of
                         None \<Rightarrow> Inl JSONDecodeError
                       | Some (uni2, r2) \<Rightarrow>
                           if 0xDC00 \<le> uni2 \<and> uni2 \<le> 0xDFFF
                           then cons_char (0x10000 + (uni - 0xD800) * 1024 + (uni2 - 0xDC00))
                                  (scanstring r2)
                           else cons_char uni (scanstring r1))
                    else cons_char uni (scanstring r1)))
      else if c < 32 then Inl JSONDecodeError
      else cons_char c (scanstring cs))"
  by pat_completeness auto
termination
  by (relation "measure length") (auto dest!: hex4_length)

text \<open>
  A number, as the scanner matches it: an optional \<open>-\<close>, then \<open>0\<close> or a digit from 1 to 9
  and more digits; then, when present, a fraction (\<open>.\<close> and digits) and an exponent
  (\<open>e\<close> or \<open>E\<close>, an optional sign and digits). Without fraction and exponent the number
  is an \<open>int\<close>, and \<open>int\<close> refuses more than 4300 digits.
\<close>

definition int_max_str_digits :: nat where
  "int_max_str_digits = 4300"

definition digits_value :: "pystr \<Rightarrow> int" where
  "digits_value ds = foldl (\<lambda>a d. a * 10 + (int d - 48)) 0 ds"

definition scan_int :: "pystr \<Rightarrow> (pystr \<times> pystr) option" where
  "scan_int s =
     (case s of
        [] \<Rightarrow> None
      | d # r \<Rightarrow>
          if d = 48 then Some ([d], r)
          else if is_digit d then Some (d # takeWhile is_digit r, dropWhile is_digit r)
          else None)"

definition scan_frac :: "pystr \<Rightarrow> pystr \<times> pystr" where
  "scan_frac s =
     (case s of
        dot # d # r \<Rightarrow>
          if dot = 46 \<and> is_digit d then (dot # d # takeWhile is_digit r, dropWhile is_digit r)
          else ([], s)
      | _ \<Rightarrow> ([], s))"

definition exp_digits :: "pystr \<Rightarrow> (pystr \<times> pystr) option" where
  "exp_digits r =
     (case r of
        [] \<Rightarrow> None
      | sg # r' \<Rightarrow>
          if sg = 43 \<or> sg = 45 then
            (case r' of
               [] \<Rightarrow> None
             | d # r'' \<Rightarrow>
                 if is_digit d then Some (sg # d # takeWhile is_digit r'', dropWhile is_digit r'')
                 else None)
          else if is_digit sg then Some (sg # takeWhile is_digit r', dropWhile is_digit r')
          else None)"

definition scan_exp :: "pystr \<Rightarrow> pystr \<times> pystr" where
  "scan_exp s =
     (case s of
        [] \<Rightarrow> ([], s)
      | e # r \<Rightarrow>
          if e = 101 \<or> e = 69 then
            (case exp_digits r of
               None \<Rightarrow> ([], s)
             | Some (t, rest) \<Rightarrow> (e # t, rest))
          else ([], s))"

definition match_number :: "pystr \<Rightarrow> (exn + json \<times> pystr) option" where
  "match_number s =
     (case s of
        [] \<Rightarrow> None
      | c # cs \<Rightarrow>
          (case scan_int (if c = 45 then cs else s) of
             None \<Rightarrow> None
           | Some (ds, s2) \<Rightarrow>
               (case scan_frac s2 of
                  (frac, s3) \<Rightarrow>
                    (case scan_exp s3 of
                       (ex, s4) \<Rightarrow>
                         if frac \<noteq> [] \<or> ex \<noteq> []
                         then Some (Inr (JFloat ((if c = 45 then [45] else []) @ ds @ frac @ ex), s4))
                         else if int_max_str_digits < length ds
                         then Some (Inl (ValueError IntMaxStrDigits))
                         else Some (Inr (JInt (if c = 45 then - digits_value ds
                                               else digits_value ds), s4))))))"

text \<open>
  \<open>scan_once\<close> with \<open>JSONArray\<close> and \<open>JSONObject\<close>. \<open>array_items\<close> is the loop of
  \<open>JSONArray\<close>, entered where a value must start; \<open>object_pairs\<close> is the loop of
  \<open>JSONObject\<close>, entered after the opening quote of a key. The comparisons of lengths
  are there for the termination proof; \<open>scan_once_shorter\<close> at the end of the theory
  shows that they always hold, and \<open>array_items_unguarded\<close> and \<open>object_pairs_unguarded\<close>
  give the equations without them.
\<close>

function scan_once :: "pystr \<Rightarrow> exn + (json \<times> pystr)"
  and array_items :: "pystr \<Rightarrow> exn + (json list \<times> pystr)"
  and object_pairs :: "pystr \<Rightarrow> exn + ((pystr \<times> json) list \<times> pystr)"
where
  "scan_once [] = Inl JSONDecodeError"
| "scan_once (c # cs) =
     (if c = 34 then
        (case scanstring cs of
           Inl e \<Rightarrow> Inl e
         | Inr (s, r) \<Rightarrow> Inr (JString s, r))
      else if c = 123 then
        (case skip_ws cs of
           [] \<Rightarrow> Inl JSONDecodeError
         | d # r \<Rightarrow>
             if d = 125 then Inr (JObject [], r)
             else if d = 34 then
               (case object_pairs r of
                  Inl e \<Rightarrow> Inl e
                | Inr (ps, r') \<Rightarrow> Inr (JObject (dict_of_pairs ps), r'))
             else Inl JSONDecodeError)
      else if c = 91 then
        (case skip_ws cs of
           [] \<Rightarrow> Inl JSONDecodeError
         | d # r \<Rightarrow>
             if d = 93 then Inr (JArray [], r)
             else
               (case array_items (d # r) of
                  Inl e \<Rightarrow> Inl e
                | Inr (vs, r') \<Rightarrow> Inr (JArray vs, r')))
      else if take 4 (c # cs) = py ''null'' then Inr (JNull, drop 4 (c # cs))
      else if take 4 (c # cs) = py ''true'' then Inr (JBool True, drop 4 (c # cs))
      else if take 5 (c # cs) = py ''false'' then Inr (JBool False, drop 5 (c # cs))
      else
        (case match_number (c # cs) of
           Some (Inl e) \<Rightarrow> Inl e
         | Some (Inr (v, r)) \<Rightarrow> Inr (v, r)
         | None \<Rightarrow>
             if take 3 (c # cs) = py ''NaN'' then Inr (JFloat (py ''NaN''), drop 3 (c # cs))
             else if take 8 (c # cs) = py ''Infinity''
             then Inr (JFloat (py ''Infinity''), drop 8 (c # cs))
             else if take 9 (c # cs) = py ''-Infinity''
             then Inr (JFloat (py ''-Infinity''), drop 9 (c # cs))
             else Inl JSONDecodeError))"
| "array_items s =
     (case scan_once s of
        Inl e \<Rightarrow> Inl e
      | Inr (v, r) \<Rightarrow>
          (case skip_ws r of
             [] \<Rightarrow> Inl JSONDecodeError
           | d # r1 \<Rightarrow>
               if d = 93 then Inr ([v], r1)
               else if d = 44 then
                 (if length (skip_ws r1) < length s then
                    (case array_items (skip_ws r1) of
                       Inl e \<Rightarrow> Inl e
                     | Inr (vs, r2) \<Rightarrow> Inr (v # vs, r2))
                  else Inl JSONDecodeError)
               else Inl JSONDecodeError))"
| "object_pairs s =
     (case scanstring s of
        Inl e \<Rightarrow> Inl e
      | Inr (key, r0) \<Rightarrow>
          (case skip_ws r0 of
             [] \<Rightarrow> Inl JSONDecodeError
           | d # r1 \<Rightarrow>
               if d \<noteq> 58 then Inl JSONDecodeError
               else if length (skip_ws r1) < length s then
                 (case scan_once (skip_ws r1) of
                    Inl e \<Rightarrow> Inl e
                  | Inr (v, r2) \<Rightarrow>
                      (case skip_ws r2 of
                         [] \<Rightarrow> Inl JSONDecodeError
                       | d2 # r3 \<Rightarrow>
                           if d2 = 125 then Inr ([(key, v)], r3)
                           else if d2 = 44 then
                             (case skip_ws r3 of
                                [] \<Rightarrow> Inl JSONDecodeError
                              | d3 # r4 \<Rightarrow>
                                  if d3 = 34 \<and> length r4 < length s then
                                    (case object_pairs r4 of
                                       Inl e \<Rightarrow> Inl e
                                     | Inr (ps, r5) \<Rightarrow> Inr ((key, v) # ps, r5))
                                  else Inl JSONDecodeError)
                           else Inl JSONDecodeError))
               else Inl JSONDecodeError))"
  by pat_completeness auto
termination
  by (relation "measure (\<lambda>x. case x of
                   Inl s \<Rightarrow> 2 * length s
                 | Inr (Inl s) \<Rightarrow> 2 * length s + 1
                 | Inr (Inr s) \<Rightarrow> 2 * length s + 1)")
     (auto dest!: skip_ws_length)

text \<open>\<open>json.loads(s)\<close> for a string: no byte order mark in front, one value, and
  nothing but whitespace after it.\<close>

definition json_loads :: "pystr \<Rightarrow> exn + json" where
  "json_loads s =
     (if take 1 s = [0xFEFF] then Inl JSONDecodeError
      else
        (case scan_once (skip_ws s) of
           Inl e \<Rightarrow> Inl e
         | Inr (obj, r) \<Rightarrow> if skip_ws r = [] then Inr obj else Inl JSONDecodeError))"

section \<open>\<open>generate_3_tweets\<close> (lines 64 to 106)\<close>

text \<open>\<open>obj.get(key, default)\<close>: only a dictionary has the method.\<close>

definition py_get :: "json \<Rightarrow> pystr \<Rightarrow> json \<Rightarrow> exn + json" where
  "py_get obj key dflt =
     (case obj of
        JObject d \<Rightarrow> Inr (case map_of d key of None \<Rightarrow> dflt | Some v \<Rightarrow> v)
      | _ \<Rightarrow> Inl AttributeError)"

text \<open>\<open>for t in tweets\<close>: a list gives its items, a string its characters, a dictionary
  its keys; the other values are not iterable.\<close>

definition py_iter :: "json \<Rightarrow> exn + json list" where
  "py_iter v =
     (case v of
        JArray xs \<Rightarrow> Inr xs
      | JString s \<Rightarrow> Inr (map (\<lambda>c. JString [c]) s)
      | JObject d \<Rightarrow> Inr (map (\<lambda>(k, _). JString k) d)
      | _ \<Rightarrow> Inl TypeError)"

text \<open>
  Lines 99 to 103, with every exception of the \<open>try\<close> block caught:
  \<^verbatim>\<open>
    try:
        obj = json.loads(text)
        tweets = obj.get("tweets", [])
    except Exception:
        tweets = []
  \<close>
\<close>

definition try_tweets :: "pystr \<Rightarrow> json" where
  "try_tweets txt =
     (case (case json_loads txt of
              Inl e \<Rightarrow> Inl e
            | Inr obj \<Rightarrow> py_get obj (py ''tweets'') (JArray [])) of
        Inl e \<Rightarrow> JArray []
      | Inr tweets \<Rightarrow> tweets)"

text \<open>\<^verbatim>\<open>isinstance(t, str) and t.strip()\<close>\<close>

definition keeps :: "json \<Rightarrow> bool" where
  "keeps t = (case t of JString s \<Rightarrow> strip s \<noteq> [] | _ \<Rightarrow> False)"

text \<open>\<^verbatim>\<open>t.strip()\<close> of a kept item.\<close>

definition stripped :: "json \<Rightarrow> pystr" where
  "stripped t = (case t of JString s \<Rightarrow> strip s | _ \<Rightarrow> [])"

text \<open>
  Lines 96 to 106, from the text of the response:
  \<^verbatim>\<open>
    text = resp.output_text.strip()
    ...
    tweets = [t.strip() for t in tweets if isinstance(t, str) and t.strip()]
    return tweets[:3]
  \<close>
\<close>

definition parse_tweets :: "pystr \<Rightarrow> exn + pystr list" where
  "parse_tweets output_text =
     (case py_iter (try_tweets (strip output_text)) of
        Inl e \<Rightarrow> Inl e
      | Inr items \<Rightarrow> Inr (take 3 (map stripped (filter keeps items))))"

text \<open>
  The prompt and the call of the completion service (lines 70 to 92) are the parameter
  \<open>respond\<close>: given the model and the transcript it returns \<open>resp.output_text\<close> or
  raises.
\<close>

definition generate_3_tweets ::
  "(pystr \<Rightarrow> pystr \<Rightarrow> exn + pystr) \<Rightarrow> pystr \<Rightarrow> pystr \<Rightarrow> exn + pystr list" where
  "generate_3_tweets respond transcript model =
     (case respond model transcript of
        Inl e \<Rightarrow> Inl e
      | Inr output_text \<Rightarrow> parse_tweets output_text)"

subsection \<open>The specification's words for the response\<close>

text \<open>
  The post-processing of the \<open>tweets\<close> array in the specification's words: keep the
  entries that are strings, trim them, and drop those that are empty after trimming.
\<close>

definition string_entries :: "json list \<Rightarrow> pystr list" where
  "string_entries xs = List.map_filter (\<lambda>t. case t of JString s \<Rightarrow> Some s | _ \<Rightarrow> None) xs"

definition spec_clean :: "json list \<Rightarrow> pystr list" where
  "spec_clean xs = filter (\<lambda>s. s \<noteq> []) (map strip (string_entries xs))"

text \<open>A JSON value that is an object with the key \<open>tweets\<close>.\<close>

definition has_tweets_key :: "json \<Rightarrow> bool" where
  "has_tweets_key v = (case v of JObject d \<Rightarrow> map_of d (py ''tweets'') \<noteq> None | _ \<Rightarrow> False)"

text \<open>The bodies of the specification's examples, and two that are no JSON object
  with the key.\<close>

definition body_four :: pystr where
  \<open>body_four = py ''{"tweets":["x","y","z","w"]}''\<close>

definition body_blank :: pystr where
  \<open>body_blank = py ''{"tweets":["", "  ", "valid one"]}''\<close>

definition body_number :: pystr where
  \<open>body_number = py ''{"tweets": 5}''\<close>

definition body_prose :: pystr where
  "body_prose = py ''Here are the three tweets you asked for.''"

definition body_other_key :: pystr where
  \<open>body_other_key = py ''{"posts":["x","y","z"]}''\<close>

section \<open>The transcript preview (line 144)\<close>

text \<open>
  \<^verbatim>\<open>transcript[:2000] + ("..." if len(transcript) > 2000 else "")\<close>
\<close>

definition truncation_marker :: pystr where
  "truncation_marker = py ''...''"

definition transcript_preview :: "pystr \<Rightarrow> pystr" where
  "transcript_preview transcript =
     take 2000 transcript @ (if length transcript > 2000 then truncation_marker else [])"

section \<open>Properties\<close>

subsection \<open>The identifier extractor\<close>

text \<open>The definitions that evaluate \<open>extract_video_id\<close> on a given string.\<close>

lemmas url_eval = extract_video_id_def strip_def strip_with_def lstrip_with_def rstrip_with_def isspace_def
  fullmatch_id_def is_id_char_def py_def urlparse_def urlsplit_def split_scheme_def splitnetloc_def
  is_netloc_delim_def partition_at_def checknetloc_raises_def isascii_def uses_params_def splitparams_def
  is_ascii_alpha_def is_scheme_char_def lower_char_def Let_def
  short_link_block_def watch_block_def shorts_block_def index0_def parse_qs_def parse_qsl_def
  unquote_plus_def unquote_def

lemma search_shorts_fullmatch: "search_shorts p = Some v \<Longrightarrow> fullmatch_id v"
  by (induction p) (auto split: if_splits)

lemma short_link_block_fullmatch: "short_link_block u = Inr (Some v) \<Longrightarrow> fullmatch_id v"
  by (auto simp: short_link_block_def split: if_splits sum.splits)

lemma watch_block_fullmatch: "watch_block u = Inr (Some v) \<Longrightarrow> fullmatch_id v"
  by (auto simp: watch_block_def Let_def split: if_splits sum.splits)

lemma shorts_block_fullmatch: "shorts_block u = Inr v \<Longrightarrow> fullmatch_id v"
  by (auto simp: shorts_block_def search_shorts_fullmatch split: option.splits)


text \<open>
  C1. Every string \<open>extract_video_id\<close> returns is exactly 11 characters long, and each of
  its characters is in the class \<^verbatim>\<open>[A-Za-z0-9_-]\<close>; whatever the input and whatever the
  library's tables are, nothing else is returned.
\<close>

theorem extract_video_id_returns_identifier:
  assumes "extract_video_id L url = Inr vid"
  shows "length vid = 11 \<and> list_all is_id_char vid"
proof -
  have "fullmatch_id vid"
    using assms
    by (auto simp: extract_video_id_def Let_def
             split: if_splits sum.splits option.splits
             dest: short_link_block_fullmatch watch_block_fullmatch shorts_block_fullmatch)
  then show ?thesis
    by (simp add: fullmatch_id_def)
qed


lemma extract_example_short_link:
  "extract_video_id L (py ''https://youtu.be/dQw4w9WgXcQ'') = Inr (py ''dQw4w9WgXcQ'')"
  by (simp add: url_eval)

lemma extract_example_watch:
  "extract_video_id L (py ''https://www.youtube.com/watch?v=dQw4w9WgXcQ&t=10s'')
     = Inr (py ''dQw4w9WgXcQ'')"
  by (simp add: url_eval)

lemma extract_example_shorts:
  "extract_video_id L (py ''https://www.youtube.com/shorts/dQw4w9WgXcQ'')
     = Inr (py ''dQw4w9WgXcQ'')"
  by (simp add: url_eval)

theorem extract_video_id_returns_identifier_witness:
  "extract_video_id plain_lib (py ''https://youtu.be/dQw4w9WgXcQ'') = Inr (py ''dQw4w9WgXcQ'')
   \<and> length (py ''dQw4w9WgXcQ'') = 11 \<and> list_all is_id_char (py ''dQw4w9WgXcQ'')"
  using extract_video_id_returns_identifier [OF extract_example_short_link [of plain_lib]]
    extract_example_short_link [of plain_lib]
  by blast

lemma is_id_char_not_space: "is_id_char c \<Longrightarrow> \<not> isspace c"
  by (auto simp: is_id_char_def isspace_def)

lemma strip_with_none: "list_all (\<lambda>c. \<not> P c) s \<Longrightarrow> strip_with P s = s"
proof (cases s rule: rev_cases)
  case Nil
  then show ?thesis
    by (simp add: strip_with_def rstrip_with_def lstrip_with_def)
next
  case (snoc ys y)
  assume all: "list_all (\<lambda>c. \<not> P c) s"
  then have "dropWhile P s = s"
    by (cases s) (auto)
  moreover from all snoc have "\<not> P y"
    by simp
  ultimately show ?thesis
    using snoc by (simp add: strip_with_def rstrip_with_def lstrip_with_def)
qed

lemma strip_identifier: "fullmatch_id s \<Longrightarrow> strip s = s"
  unfolding strip_def fullmatch_id_def
  by (rule strip_with_none) (auto simp: list_all_iff is_id_char_not_space)


text \<open>
  C2. A string of exactly 11 characters of the class \<^verbatim>\<open>[A-Za-z0-9_-]\<close> is returned
  unchanged. More generally the bare identifier is the first shape tried: when the
  input trimmed of surrounding whitespace is such a string, the trimmed input is
  returned.
\<close>

theorem extract_video_id_bare:
  "(fullmatch_id s \<longrightarrow> extract_video_id L s = Inr s)
   \<and> (fullmatch_id (strip s) \<longrightarrow> extract_video_id L s = Inr (strip s))"
  by (simp add: extract_video_id_def strip_identifier)

lemma fullmatch_id_example: "fullmatch_id (py ''dQw4w9WgXcQ'')"
  by (simp add: fullmatch_id_def is_id_char_def py_def)

theorem extract_video_id_bare_witness:
  "fullmatch_id (py ''dQw4w9WgXcQ'')
   \<and> extract_video_id plain_lib (py ''dQw4w9WgXcQ'') = Inr (py ''dQw4w9WgXcQ'')"
  using extract_video_id_bare [of "py ''dQw4w9WgXcQ''" plain_lib] fullmatch_id_example
  by blast

text \<open>
  The pieces of the code in terms of the path and the query: the first element of the
  split path is the first segment after the leading slashes, the dictionary of
  \<open>parse_qs\<close> holds the values of each name in order, and the search finds \<open>/shorts/\<close>
  followed by eleven characters of the class exactly when the path contains them.
\<close>

lemma split_hd: "\<exists>ws. split sep s = takeWhile (\<lambda>c. c \<noteq> sep) s # ws"
  by (induction s) (auto split: list.splits)

lemma index0_split: "index0 (split sep s) = Inr (takeWhile (\<lambda>c. c \<noteq> sep) s)"
  using split_hd [of sep s] by (auto simp: index0_def)

lemma takeWhile_rstrip:
  assumes "\<And>x. Q x \<Longrightarrow> \<not> P x"
  shows "takeWhile P (rev (dropWhile Q (rev q))) = takeWhile P q"
proof -
  define a where "a = rev (dropWhile Q (rev q))"
  define t where "t = rev (takeWhile Q (rev q))"
  have "rev (takeWhile Q (rev q) @ dropWhile Q (rev q)) = rev (rev q)"
    by (simp only: takeWhile_dropWhile_id)
  then have "rev (dropWhile Q (rev q)) @ rev (takeWhile Q (rev q)) = q"
    by (simp only: rev_append rev_rev_ident)
  then have q: "q = a @ t"
    unfolding a_def t_def by simp
  have allQ: "\<And>x. x \<in> set t \<Longrightarrow> Q x"
    by (auto simp: t_def dest: set_takeWhileD)
  have t: "takeWhile P t = []"
  proof (cases t)
    case Nil
    then show ?thesis by simp
  next
    case (Cons x xs)
    then have "Q x"
      using allQ by simp
    then show ?thesis
      using assms Cons by simp
  qed
  have "takeWhile P (a @ t) = takeWhile P a"
  proof (cases "\<forall>x\<in>set a. P x")
    case True
    then have 1: "takeWhile P (a @ t) = a @ takeWhile P t"
      by simp
    from True have 2: "takeWhile P a = a"
      by simp
    show ?thesis
      by (simp only: 1 2 t append_Nil2)
  next
    case False
    then obtain x where "x \<in> set a" "\<not> P x"
      by blast
    then show ?thesis
      by (rule takeWhile_append1)
  qed
  then have "takeWhile P q = takeWhile P a"
    by (simp only: q [symmetric])
  then show ?thesis
    by (simp only: a_def)
qed
lemma first_segment_code:
  "index0 (split 47 (strip_with (\<lambda>c. c = 47) p)) = Inr (stripped_segment p)"
proof -
  have "takeWhile (\<lambda>c. c \<noteq> 47) (rev (dropWhile (\<lambda>c. c = 47) (rev (dropWhile (\<lambda>c. c = 47) p))))
        = takeWhile (\<lambda>c. c \<noteq> 47) (dropWhile (\<lambda>c. c = (47::nat)) p)"
    by (rule takeWhile_rstrip) simp
  then show ?thesis
    by (simp only: index0_split strip_with_def rstrip_with_def lstrip_with_def stripped_segment_def)
qed

lemma short_link_block_eq:
  "short_link_block u =
     Inr (if (netloc u = py ''youtu.be'' \<or> netloc u = py ''www.youtu.be'')
             \<and> fullmatch_id (stripped_segment (path u))
          then Some (stripped_segment (path u)) else None)"
  by (simp add: short_link_block_def first_segment_code)

text \<open>The dictionary of parse_qs holds, for each name, the values of its fields in order.\<close>

lemma map_of_dict_append:
  "map_of (dict_append d name v) k =
     (if k = name then Some ((case map_of d k of None \<Rightarrow> [] | Some vs \<Rightarrow> vs) @ [v])
      else map_of d k)"
  by (induction d name v rule: dict_append.induct) auto

lemma map_of_foldl_dict_append:
  "map_of (foldl (\<lambda>d (name, v). dict_append d name v) d ps) k =
     (let new = map snd (filter (\<lambda>(n, v). n = k) ps) in
      if new = [] then map_of d k
      else Some ((case map_of d k of None \<Rightarrow> [] | Some vs \<Rightarrow> vs) @ new))"
proof (induction ps arbitrary: d)
  case Nil
  then show ?case by simp
next
  case (Cons p ps)
  obtain n v where p: "p = (n, v)"
    by (cases p)
  show ?case
    by (simp add: p Cons.IH map_of_dict_append Let_def)
qed

lemma map_of_parse_qs:
  "map_of (parse_qs q) k =
     (let vs = map snd (filter (\<lambda>(n, v). n = k) (parse_qsl q)) in
      if vs = [] then None else Some vs)"
  by (simp add: parse_qs_def map_of_foldl_dict_append Let_def)

lemma find_filter_hd:
  "map_option snd (find P ps) =
     (case map snd (filter P ps) of [] \<Rightarrow> None | v # _ \<Rightarrow> Some v)"
  by (induction ps) auto

lemma watch_block_eq:
  "watch_block u =
     Inr (if path u = py ''/watch'' then
            (case query_value (query u) (py ''v'') of
               Some vid \<Rightarrow> if fullmatch_id vid then Some vid else None
             | None \<Rightarrow> None)
          else None)"
proof -
  have empty: "\<not> fullmatch_id []"
    by (simp add: fullmatch_id_def)
  show ?thesis
    by (auto simp: watch_block_def map_of_parse_qs query_value_def find_filter_hd Let_def
          index0_def empty split: list.splits)
qed

lemma search_shorts_Some:
  "search_shorts p = Some v \<Longrightarrow>
     \<exists>pre rest. p = pre @ py ''/shorts/'' @ v @ rest \<and> fullmatch_id v"
proof (induction p)
  case Nil
  then show ?case by simp
next
  case (Cons c cs)
  show ?case
  proof (cases "take 8 (c # cs) = py ''/shorts/'' \<and> fullmatch_id (take 11 (drop 8 (c # cs)))")
    case True
    with Cons.prems have v: "take 11 (drop 8 (c # cs)) = v"
      by simp
    have "c # cs = take 8 (c # cs) @ take 11 (drop 8 (c # cs)) @ drop 11 (drop 8 (c # cs))"
      by (simp only: append_take_drop_id)
    with True v have "c # cs = [] @ py ''/shorts/'' @ v @ drop 11 (drop 8 (c # cs))"
      by (simp only: append_Nil)
    moreover from True v have "fullmatch_id v"
      by simp
    ultimately show ?thesis
      by blast
  next
    case False
    with Cons.prems have "search_shorts cs = Some v"
      by (simp split: if_splits)
    from Cons.IH [OF this] obtain pre rest
      where cs: "cs = pre @ py ''/shorts/'' @ v @ rest" and v: "fullmatch_id v"
      by blast
    from cs have "c # cs = (c # pre) @ py ''/shorts/'' @ v @ rest"
      by simp
    with v show ?thesis
      by blast
  qed
qed

lemma search_shorts_found:
  assumes "fullmatch_id vid"
  shows "search_shorts (pre @ py ''/shorts/'' @ vid @ rest) \<noteq> None"
proof (induction pre)
  case Nil
  have len: "length (py ''/shorts/'') = 8"
    by (simp add: py_def)
  from assms have lv: "length vid = 11"
    by (simp add: fullmatch_id_def)
  define p where "p = py ''/shorts/'' @ vid @ rest"
  have t8: "take 8 p = py ''/shorts/''"
    using len by (simp add: p_def)
  have t11: "take 11 (drop 8 p) = vid"
    using len lv by (simp add: p_def)
  have "p \<noteq> []"
    using t8 len by auto
  then obtain c cs where cs: "p = c # cs"
    by (cases p) auto
  have "search_shorts (c # cs) = Some vid"
    using t8 t11 assms unfolding cs by simp
  then show ?case
    unfolding append_Nil p_def [symmetric] cs by simp
next
  case (Cons a pre)
  then show ?case
    by simp
qed

lemma search_shorts_iff:
  "search_shorts p \<noteq> None \<longleftrightarrow>
     (\<exists>pre vid rest. p = pre @ py ''/shorts/'' @ vid @ rest \<and> fullmatch_id vid)"
proof
  assume "search_shorts p \<noteq> None"
  then obtain v where "search_shorts p = Some v"
    by blast
  from search_shorts_Some [OF this] show
    "\<exists>pre vid rest. p = pre @ py ''/shorts/'' @ vid @ rest \<and> fullmatch_id vid"
    by blast
next
  assume "\<exists>pre vid rest. p = pre @ py ''/shorts/'' @ vid @ rest \<and> fullmatch_id vid"
  then obtain pre vid rest where "p = pre @ py ''/shorts/'' @ vid @ rest" "fullmatch_id vid"
    by blast
  then show "search_shorts p \<noteq> None"
    using search_shorts_found by simp
qed

text \<open>urlparse raises nothing but ValueError.\<close>

lemma urlparse_error: "urlparse L url = Inl e \<Longrightarrow> \<exists>m. e = ValueError m"
  by (auto simp: urlparse_def urlsplit_def Let_def split: sum.splits if_splits prod.splits)

lemma extract_video_id_eq:
  "extract_video_id L url =
     (if fullmatch_id (strip url) then Inr (strip url)
      else case urlparse L (strip url) of
             Inl e \<Rightarrow> Inl e
           | Inr u \<Rightarrow>
               if (netloc u = py ''youtu.be'' \<or> netloc u = py ''www.youtu.be'')
                  \<and> fullmatch_id (stripped_segment (path u))
               then Inr (stripped_segment (path u))
               else if path u = py ''/watch''
                  \<and> (\<exists>vid. query_value (query u) (py ''v'') = Some vid \<and> fullmatch_id vid)
               then Inr (the (query_value (query u) (py ''v'')))
               else shorts_block u)"
  by (auto simp: extract_video_id_def short_link_block_eq watch_block_eq Let_def
        split: sum.splits option.splits)

text \<open>
  The three URL shapes in general. An identifier holds none of the characters that
  \<open>strip\<close>, \<open>urlparse\<close> and \<open>parse_qsl\<close> treat specially, so a bare identifier parses
  as a path without a host, and the three shapes exclude one another and the bare
  identifier.
\<close>

lemma fullmatch_id_chars: "fullmatch_id s \<Longrightarrow> c \<in> set s \<Longrightarrow> is_id_char c"
  by (simp add: fullmatch_id_def list_all_iff)

lemma fullmatch_id_length: "fullmatch_id s \<Longrightarrow> length s = 11"
  by (simp add: fullmatch_id_def)

lemma is_id_char_plain:
  "is_id_char c \<Longrightarrow> 32 < c \<and> c \<noteq> 35 \<and> c \<noteq> 37 \<and> c \<noteq> 38 \<and> c \<noteq> 43 \<and> c \<noteq> 47 \<and> c \<noteq> 58
     \<and> c \<noteq> 59 \<and> c \<noteq> 61 \<and> c \<noteq> 63"
  by (auto simp: is_id_char_def)

lemma dropWhile_none: "\<forall>c\<in>set s. \<not> P c \<Longrightarrow> dropWhile P s = s"
  by (cases s) auto

lemma urlparse_identifier:
  assumes "fullmatch_id s"
  shows "urlparse L s = Inr \<lparr>scheme = [], netloc = [], path = s, params = [], query = [], fragment = []\<rparr>"
proof -
  have ch: "\<And>c. c \<in> set s \<Longrightarrow> 32 < c \<and> c \<noteq> 35 \<and> c \<noteq> 37 \<and> c \<noteq> 38 \<and> c \<noteq> 43 \<and> c \<noteq> 47 \<and> c \<noteq> 58
     \<and> c \<noteq> 59 \<and> c \<noteq> 61 \<and> c \<noteq> 63"
    using assms fullmatch_id_chars is_id_char_plain by blast
  have l: "lstrip_with (\<lambda>c. c \<le> 32) s = s"
    unfolding lstrip_with_def by (rule dropWhile_none) (use ch in fastforce)
  have f: "filter (\<lambda>c. c \<noteq> 9 \<and> c \<noteq> 13 \<and> c \<noteq> 10) s = s"
    by (rule filter_True) (use ch in fastforce)
  have sch: "split_scheme s = ([], s)"
    using ch by (auto simp: split_scheme_def Let_def)
  have "47 \<notin> set (take 2 s)"
    using ch by (auto dest: in_set_takeD)
  then have t2: "take 2 s \<noteq> py ''//''"
    by (auto simp: py_def)
  have p35: "partition_at 35 s = (s, False, [])"
    using ch by (auto simp: partition_at_def)
  have p63: "partition_at 63 s = (s, False, [])"
    using ch by (auto simp: partition_at_def)
  have us: "urlsplit L s = Inr \<lparr>scheme = [], netloc = [], path = s, params = [], query = [], fragment = []\<rparr>"
    by (simp add: urlsplit_def l f sch t2 p35 p63 checknetloc_raises_def)
  have "59 \<notin> set s"
    using ch by auto
  then show ?thesis
    by (simp add: urlparse_def us)
qed

lemma stripped_segment_identifier:
  assumes "fullmatch_id vid" and "rest = [] \<or> hd rest = 47"
  shows "stripped_segment (47 # vid @ rest) = vid"
proof -
  have ch: "\<And>c. c \<in> set vid \<Longrightarrow> c \<noteq> 47"
    using assms(1) fullmatch_id_chars is_id_char_plain by blast
  from assms(1) have ne: "vid \<noteq> []"
    by (auto simp: fullmatch_id_def)
  then have "hd vid \<noteq> 47"
    using ch by simp
  then have d: "dropWhile (\<lambda>c. c = 47) (vid @ rest) = vid @ rest"
    using ne by (cases vid) auto
  have t: "takeWhile (\<lambda>c. c \<noteq> 47) rest = []"
    using assms(2) by (cases rest) auto
  have "takeWhile (\<lambda>c. c \<noteq> 47) (vid @ rest) = vid @ takeWhile (\<lambda>c. c \<noteq> 47) rest"
    by (rule takeWhile_append2) (use ch in blast)
  then show ?thesis
    by (simp add: stripped_segment_def d t)
qed

lemma extract_short_link_general:
  assumes u: "urlparse L (strip url) = Inr u"
    and host: "netloc u = py ''youtu.be'' \<or> netloc u = py ''www.youtu.be''"
    and p: "path u = py ''/'' @ vid @ rest" and vid: "fullmatch_id vid"
    and rest: "rest = [] \<or> hd rest = 47"
  shows "extract_video_id L url = Inr vid"
proof -
  have bare: "\<not> fullmatch_id (strip url)"
  proof
    assume "fullmatch_id (strip url)"
    from urlparse_identifier [OF this, of L] u have "netloc u = []"
      by auto
    with host show False
      by (auto simp: py_def)
  qed
  have seg: "stripped_segment (path u) = vid"
    using stripped_segment_identifier [OF vid rest] p by (simp add: py_def)
  show ?thesis
    using bare u host vid seg by (simp add: extract_video_id_eq)
qed

lemma extract_watch_general:
  assumes u: "urlparse L (strip url) = Inr u"
    and p: "path u = py ''/watch''"
    and q: "query_value (query u) (py ''v'') = Some vid" and vid: "fullmatch_id vid"
  shows "extract_video_id L url = Inr vid"
proof -
  have bare: "\<not> fullmatch_id (strip url)"
  proof
    assume f: "fullmatch_id (strip url)"
    from urlparse_identifier [OF this, of L] u have "path u = strip url"
      by auto
    with f p show False
      by (auto simp: py_def fullmatch_id_def)
  qed
  have seg: "\<not> fullmatch_id (stripped_segment (path u))"
    by (simp add: p stripped_segment_def py_def fullmatch_id_def)
  show ?thesis
    using bare u p q vid seg by (simp add: extract_video_id_eq)
qed

lemma extract_shorts_general:
  assumes u: "urlparse L (strip url) = Inr u"
    and p: "path u = py ''/shorts/'' @ vid @ rest" and vid: "fullmatch_id vid"
  shows "extract_video_id L url = Inr vid"
proof -
  have bare: "\<not> fullmatch_id (strip url)"
  proof
    assume f: "fullmatch_id (strip url)"
    from urlparse_identifier [OF this, of L] u have "path u = strip url"
      by auto
    with p have "47 \<in> set (strip url)"
      by (simp add: py_def)
    with fullmatch_id_chars [OF f] is_id_char_plain show False
      by blast
  qed
  have seg: "\<not> fullmatch_id (stripped_segment (path u))"
    by (simp add: p stripped_segment_def py_def fullmatch_id_def)
  have w: "path u \<noteq> py ''/watch''"
    by (simp add: p py_def)
  have lv: "length vid = 11"
    using vid by (simp add: fullmatch_id_def)
  have "search_shorts (path u) = Some vid"
    using vid lv by (simp add: p py_def)
  then show ?thesis
    using bare u seg w by (simp add: extract_video_id_eq shorts_block_def)
qed

lemma strip_plain: "\<forall>c\<in>set s. \<not> isspace c \<Longrightarrow> strip s = s"
  unfolding strip_def by (rule strip_with_none) (simp add: list_all_iff)

lemma split_append:
  "sep \<notin> set a \<Longrightarrow> split sep (a @ sep # b) = a # split sep b"
  by (induction a) (auto split: list.splits)

lemma unquote_plus_identifier: "fullmatch_id s \<Longrightarrow> unquote_plus s = s"
proof -
  assume f: "fullmatch_id s"
  have ch: "\<And>c. c \<in> set s \<Longrightarrow> c \<noteq> 37 \<and> c \<noteq> 43"
    using f fullmatch_id_chars is_id_char_plain by blast
  have "map (\<lambda>c. if c = 43 then 32 else c) s = s"
    by (rule map_idI) (use ch in auto)
  moreover have "37 \<notin> set s"
    using ch by blast
  ultimately show ?thesis
    by (simp add: unquote_plus_def unquote_def)
qed

lemma urlparse_short_link_template:
  assumes "fullmatch_id vid"
  shows "urlparse L (py ''https://youtu.be/'' @ vid)
         = Inr \<lparr>scheme = py ''https'', netloc = py ''youtu.be'', path = py ''/'' @ vid,
                 params = [], query = [], fragment = []\<rparr>"
proof -
  have ch: "\<And>c. c \<in> set vid \<Longrightarrow> 32 < c \<and> c \<noteq> 35 \<and> c \<noteq> 37 \<and> c \<noteq> 38 \<and> c \<noteq> 43 \<and> c \<noteq> 47 \<and> c \<noteq> 58
     \<and> c \<noteq> 59 \<and> c \<noteq> 61 \<and> c \<noteq> 63"
    using assms fullmatch_id_chars is_id_char_plain by blast
  have f: "filter (\<lambda>c. c \<noteq> 9 \<and> c \<noteq> 13 \<and> c \<noteq> 10) vid = vid"
    by (rule filter_True) (use ch in fastforce)
  have n: "35 \<notin> set vid" "63 \<notin> set vid" "59 \<notin> set vid"
    using ch by blast+
  show ?thesis
    using n
    by (simp add: urlparse_def urlsplit_def lstrip_with_def py_def f split_scheme_def Let_def
          is_ascii_alpha_def is_scheme_char_def lower_char_def splitnetloc_def is_netloc_delim_def
          partition_at_def checknetloc_raises_def isascii_def uses_params_def)
qed

lemma urlparse_watch_template:
  assumes "fullmatch_id vid"
  shows "urlparse L (py ''https://www.youtube.com/watch?v='' @ vid @ py ''&t=10s'')
         = Inr \<lparr>scheme = py ''https'', netloc = py ''www.youtube.com'', path = py ''/watch'',
                 params = [], query = py ''v='' @ vid @ py ''&t=10s'', fragment = []\<rparr>"
proof -
  have ch: "\<And>c. c \<in> set vid \<Longrightarrow> 32 < c \<and> c \<noteq> 35 \<and> c \<noteq> 37 \<and> c \<noteq> 38 \<and> c \<noteq> 43 \<and> c \<noteq> 47 \<and> c \<noteq> 58
     \<and> c \<noteq> 59 \<and> c \<noteq> 61 \<and> c \<noteq> 63"
    using assms fullmatch_id_chars is_id_char_plain by blast
  have f: "filter (\<lambda>c. c \<noteq> 9 \<and> c \<noteq> 13 \<and> c \<noteq> 10) vid = vid"
    by (rule filter_True) (use ch in fastforce)
  have n: "35 \<notin> set vid" "63 \<notin> set vid" "59 \<notin> set vid"
    using ch by blast+
  show ?thesis
    using n
    by (simp add: urlparse_def urlsplit_def lstrip_with_def py_def f split_scheme_def Let_def
          is_ascii_alpha_def is_scheme_char_def lower_char_def splitnetloc_def is_netloc_delim_def
          partition_at_def checknetloc_raises_def isascii_def uses_params_def)
qed

lemma query_value_watch_template:
  assumes "fullmatch_id vid"
  shows "query_value (py ''v='' @ vid @ py ''&t=10s'') (py ''v'') = Some vid"
proof -
  have ch: "\<And>c. c \<in> set vid \<Longrightarrow> c \<noteq> 38 \<and> c \<noteq> 61"
    using assms fullmatch_id_chars is_id_char_plain by blast
  from assms have ne: "vid \<noteq> []"
    by (auto simp: fullmatch_id_def)
  have "38 \<notin> set (py ''v='' @ vid)"
    using ch by (auto simp: py_def)
  then have "split 38 ((py ''v='' @ vid) @ 38 # py ''t=10s'')
             = (py ''v='' @ vid) # split 38 (py ''t=10s'')"
    by (rule split_append)
  then have s: "split 38 (py ''v='' @ vid @ py ''&t=10s'') = [py ''v='' @ vid, py ''t=10s'']"
    by (simp add: py_def)
  have p: "partition_at 61 (py ''v='' @ vid) = (py ''v'', True, vid)"
    by (simp add: partition_at_def py_def)
  have uv: "unquote_plus (py ''v'') = py ''v''"
    by (simp add: unquote_plus_def unquote_def py_def)
  have "parse_qsl (py ''v='' @ vid @ py ''&t=10s'')
        = (py ''v'', vid) # parse_fields [py ''t=10s'']"
    using ne by (simp add: parse_qsl_def s p uv unquote_plus_identifier [OF assms])
  then show ?thesis
    by (simp add: query_value_def)
qed

lemma urlparse_shorts_template:
  assumes "fullmatch_id vid"
  shows "urlparse L (py ''https://www.youtube.com/shorts/'' @ vid)
         = Inr \<lparr>scheme = py ''https'', netloc = py ''www.youtube.com'',
                 path = py ''/shorts/'' @ vid, params = [], query = [], fragment = []\<rparr>"
proof -
  have ch: "\<And>c. c \<in> set vid \<Longrightarrow> 32 < c \<and> c \<noteq> 35 \<and> c \<noteq> 37 \<and> c \<noteq> 38 \<and> c \<noteq> 43 \<and> c \<noteq> 47 \<and> c \<noteq> 58
     \<and> c \<noteq> 59 \<and> c \<noteq> 61 \<and> c \<noteq> 63"
    using assms fullmatch_id_chars is_id_char_plain by blast
  have f: "filter (\<lambda>c. c \<noteq> 9 \<and> c \<noteq> 13 \<and> c \<noteq> 10) vid = vid"
    by (rule filter_True) (use ch in fastforce)
  have n: "35 \<notin> set vid" "63 \<notin> set vid" "59 \<notin> set vid"
    using ch by blast+
  show ?thesis
    using n
    by (simp add: urlparse_def urlsplit_def lstrip_with_def py_def f split_scheme_def Let_def
          is_ascii_alpha_def is_scheme_char_def lower_char_def splitnetloc_def is_netloc_delim_def
          partition_at_def checknetloc_raises_def isascii_def uses_params_def)
qed

lemma strip_template:
  assumes "fullmatch_id vid" and "\<forall>c\<in>set a. \<not> isspace c" and "\<forall>c\<in>set b. \<not> isspace c"
  shows "strip (a @ vid @ b) = a @ vid @ b"
proof (rule strip_plain)
  show "\<forall>c\<in>set (a @ vid @ b). \<not> isspace c"
    using assms fullmatch_id_chars is_id_char_not_space by auto
qed

lemma extract_short_link_template:
  assumes "fullmatch_id vid"
  shows "extract_video_id L (py ''https://youtu.be/'' @ vid) = Inr vid"
proof -
  have s: "strip (py ''https://youtu.be/'' @ vid @ []) = py ''https://youtu.be/'' @ vid @ []"
    by (rule strip_template [OF assms]) (simp_all add: py_def isspace_def)
  show ?thesis
  proof (rule extract_short_link_general [where rest = "[]"])
    show "urlparse L (strip (py ''https://youtu.be/'' @ vid))
          = Inr \<lparr>scheme = py ''https'', netloc = py ''youtu.be'', path = py ''/'' @ vid,
                 params = [], query = [], fragment = []\<rparr>"
      using s urlparse_short_link_template [OF assms] by simp
  qed (use assms in simp_all)
qed

lemma extract_watch_template:
  assumes "fullmatch_id vid"
  shows "extract_video_id L (py ''https://www.youtube.com/watch?v='' @ vid @ py ''&t=10s'') = Inr vid"
proof -
  have s: "strip (py ''https://www.youtube.com/watch?v='' @ vid @ py ''&t=10s'')
           = py ''https://www.youtube.com/watch?v='' @ vid @ py ''&t=10s''"
    by (rule strip_template [OF assms]) (simp_all add: py_def isspace_def)
  show ?thesis
  proof (rule extract_watch_general)
    show "urlparse L (strip (py ''https://www.youtube.com/watch?v='' @ vid @ py ''&t=10s''))
         = Inr \<lparr>scheme = py ''https'', netloc = py ''www.youtube.com'', path = py ''/watch'',
                 params = [], query = py ''v='' @ vid @ py ''&t=10s'', fragment = []\<rparr>"
      using s urlparse_watch_template [OF assms] by simp
  qed (use assms query_value_watch_template in simp_all)
qed

lemma extract_shorts_template:
  assumes "fullmatch_id vid"
  shows "extract_video_id L (py ''https://www.youtube.com/shorts/'' @ vid) = Inr vid"
proof -
  have s: "strip (py ''https://www.youtube.com/shorts/'' @ vid @ [])
           = py ''https://www.youtube.com/shorts/'' @ vid @ []"
    by (rule strip_template [OF assms]) (simp_all add: py_def isspace_def)
  show ?thesis
  proof (rule extract_shorts_general [where rest = "[]"])
    show "urlparse L (strip (py ''https://www.youtube.com/shorts/'' @ vid))
         = Inr \<lparr>scheme = py ''https'', netloc = py ''www.youtube.com'',
                 path = py ''/shorts/'' @ vid, params = [], query = [], fragment = []\<rparr>"
      using s urlparse_shorts_template [OF assms] by simp
  qed (use assms in simp_all)
qed

lemma search_shorts_leftmost:
  assumes vid: "fullmatch_id vid"
    and left: "\<And>pre' vid' rest'. pre @ py ''/shorts/'' @ vid @ rest = pre' @ py ''/shorts/'' @ vid' @ rest'
                 \<Longrightarrow> fullmatch_id vid' \<Longrightarrow> length pre \<le> length pre'"
  shows "search_shorts (pre @ py ''/shorts/'' @ vid @ rest) = Some vid"
  using left
proof (induction pre)
  case Nil
  have lv: "length vid = 11"
    using vid by (simp add: fullmatch_id_def)
  show ?case
    using vid lv by (simp add: py_def)
next
  case (Cons a pre)
  define q where "q = pre @ py ''/shorts/'' @ vid @ rest"
  have aq: "(a # pre) @ py ''/shorts/'' @ vid @ rest = a # q"
    by (simp add: q_def)
  have here: "\<not> (take 8 (a # q) = py ''/shorts/'' \<and> fullmatch_id (take 11 (drop 8 (a # q))))"
  proof
    assume h: "take 8 (a # q) = py ''/shorts/'' \<and> fullmatch_id (take 11 (drop 8 (a # q)))"
    then have e8: "take 8 (a # q) = py ''/shorts/''"
      by (rule conjunct1)
    from h have f: "fullmatch_id (take 11 (drop 8 (a # q)))"
      by (rule conjunct2)
    have "take 8 (a # q) @ take 11 (drop 8 (a # q)) @ drop 11 (drop 8 (a # q)) = a # q"
      by (simp only: append_take_drop_id)
    then have "py ''/shorts/'' @ take 11 (drop 8 (a # q)) @ drop 11 (drop 8 (a # q)) = a # q"
      by (simp only: e8)
    then have "(a # pre) @ py ''/shorts/'' @ vid @ rest
                 = [] @ py ''/shorts/'' @ take 11 (drop 8 (a # q)) @ drop 11 (drop 8 (a # q))"
      by (simp only: aq append_Nil)
    from Cons.prems [OF this f] show False
      by simp
  qed
  have "search_shorts (pre @ py ''/shorts/'' @ vid @ rest) = Some vid"
  proof (rule Cons.IH)
    fix pre' vid' rest'
    assume e: "pre @ py ''/shorts/'' @ vid @ rest = pre' @ py ''/shorts/'' @ vid' @ rest'"
      and f: "fullmatch_id vid'"
    from e have "(a # pre) @ py ''/shorts/'' @ vid @ rest = (a # pre') @ py ''/shorts/'' @ vid' @ rest'"
      by simp
    from Cons.prems [OF this f] show "length pre \<le> length pre'"
      by simp
  qed
  then have "search_shorts q = Some vid"
    by (simp only: q_def)
  then have "search_shorts (a # q) = Some vid"
    using here by (simp only: search_shorts.simps if_False)
  then show ?case
    by (simp only: aq)
qed

lemma extract_shorts_general2:
  assumes u: "urlparse L (strip url) = Inr u"
    and host: "netloc u \<noteq> py ''youtu.be''" "netloc u \<noteq> py ''www.youtu.be''"
    and p: "path u = pre @ py ''/shorts/'' @ vid @ rest" and vid: "fullmatch_id vid"
    and left: "\<And>pre' vid' rest'. path u = pre' @ py ''/shorts/'' @ vid' @ rest'
                 \<Longrightarrow> fullmatch_id vid' \<Longrightarrow> length pre \<le> length pre'"
  shows "extract_video_id L url = Inr vid"
proof -
  have bare: "\<not> fullmatch_id (strip url)"
  proof
    assume f: "fullmatch_id (strip url)"
    from urlparse_identifier [OF this, of L] u have "path u = strip url"
      by auto
    with p have "47 \<in> set (strip url)"
      by (simp add: py_def)
    with fullmatch_id_chars [OF f] is_id_char_plain show False
      by blast
  qed
  have w: "path u \<noteq> py ''/watch''"
  proof
    assume "path u = py ''/watch''"
    then have "length (path u) = 6"
      by (simp add: py_def)
    moreover have "length (path u) \<ge> 19"
      using vid by (simp add: p py_def fullmatch_id_def)
    ultimately show False
      by simp
  qed
  have "search_shorts (path u) = Some vid"
    unfolding p by (rule search_shorts_leftmost [OF vid]) (use left p in auto)
  then show ?thesis
    using bare u host w by (simp add: extract_video_id_eq shorts_block_def)
qed

text \<open>
  C3. \<open>extract_video_id\<close> maps each of the three URL shapes to the identifier embedded
  in it, for every identifier \<open>vid\<close> (11 characters of the class) and every URL:
  \<^item> a URL whose host is \<open>youtu.be\<close> or \<open>www.youtu.be\<close> and whose path is \<open>/\<close>, \<open>vid\<close>
    and then nothing or a further segment, gives \<open>vid\<close>;
  \<^item> a URL whose path is \<open>/watch\<close> and whose query parameter \<open>v\<close> is \<open>vid\<close> gives \<open>vid\<close>;
  \<^item> a URL whose path starts with the segments \<open>/shorts/\<close> \<open>vid\<close> gives \<open>vid\<close>, and so
    does a URL of another host than the short-link ones whose path holds these segments
    further right, when no \<open>/shorts/\<close> followed by an identifier stands to their left;
  \<^item> so the three forms of the specification's examples give \<open>vid\<close> whatever identifier
    \<open>vid\<close> they carry: \<open>https://youtu.be/vid\<close>,
    \<open>https://www.youtube.com/watch?v=vid&t=10s\<close> and \<open>https://www.youtube.com/shorts/vid\<close>;
  \<^item> and the three example URLs each give \<open>dQw4w9WgXcQ\<close>.
\<close>

theorem extract_video_id_url_shapes:
  assumes "fullmatch_id vid"
  shows
   "(urlparse L (strip url) = Inr u
       \<and> (netloc u = py ''youtu.be'' \<or> netloc u = py ''www.youtu.be'')
       \<and> path u = py ''/'' @ vid @ rest \<and> (rest = [] \<or> hd rest = 47)
      \<longrightarrow> extract_video_id L url = Inr vid)
    \<and> (urlparse L (strip url) = Inr u \<and> path u = py ''/watch''
       \<and> query_value (query u) (py ''v'') = Some vid
      \<longrightarrow> extract_video_id L url = Inr vid)
    \<and> (urlparse L (strip url) = Inr u
       \<and> path u = py ''/shorts/'' @ vid @ rest \<and> (rest = [] \<or> hd rest = 47)
      \<longrightarrow> extract_video_id L url = Inr vid)
    \<and> (urlparse L (strip url) = Inr u
       \<and> netloc u \<noteq> py ''youtu.be'' \<and> netloc u \<noteq> py ''www.youtu.be''
       \<and> path u = pre @ py ''/shorts/'' @ vid @ rest \<and> (rest = [] \<or> hd rest = 47)
       \<and> (\<forall>pre' vid' rest'. path u = pre' @ py ''/shorts/'' @ vid' @ rest' \<and> fullmatch_id vid'
              \<longrightarrow> length pre \<le> length pre')
      \<longrightarrow> extract_video_id L url = Inr vid)
    \<and> extract_video_id L (py ''https://youtu.be/'' @ vid) = Inr vid
    \<and> extract_video_id L (py ''https://www.youtube.com/watch?v='' @ vid @ py ''&t=10s'') = Inr vid
    \<and> extract_video_id L (py ''https://www.youtube.com/shorts/'' @ vid) = Inr vid
    \<and> extract_video_id L (py ''https://youtu.be/dQw4w9WgXcQ'') = Inr (py ''dQw4w9WgXcQ'')
    \<and> extract_video_id L (py ''https://www.youtube.com/watch?v=dQw4w9WgXcQ&t=10s'')
        = Inr (py ''dQw4w9WgXcQ'')
    \<and> extract_video_id L (py ''https://www.youtube.com/shorts/dQw4w9WgXcQ'')
        = Inr (py ''dQw4w9WgXcQ'')"
proof -
  have 1: "urlparse L (strip url) = Inr u
       \<and> (netloc u = py ''youtu.be'' \<or> netloc u = py ''www.youtu.be'')
       \<and> path u = py ''/'' @ vid @ rest \<and> (rest = [] \<or> hd rest = 47)
      \<longrightarrow> extract_video_id L url = Inr vid"
    using extract_short_link_general [OF _ _ _ assms] by blast
  have 2: "urlparse L (strip url) = Inr u \<and> path u = py ''/watch''
       \<and> query_value (query u) (py ''v'') = Some vid
      \<longrightarrow> extract_video_id L url = Inr vid"
    using extract_watch_general [OF _ _ _ assms] by blast
  have 3: "urlparse L (strip url) = Inr u
       \<and> path u = py ''/shorts/'' @ vid @ rest \<and> (rest = [] \<or> hd rest = 47)
      \<longrightarrow> extract_video_id L url = Inr vid"
    using extract_shorts_general [OF _ _ assms] by blast
  have 4: "urlparse L (strip url) = Inr u
       \<and> netloc u \<noteq> py ''youtu.be'' \<and> netloc u \<noteq> py ''www.youtu.be''
       \<and> path u = pre @ py ''/shorts/'' @ vid @ rest \<and> (rest = [] \<or> hd rest = 47)
       \<and> (\<forall>pre' vid' rest'. path u = pre' @ py ''/shorts/'' @ vid' @ rest' \<and> fullmatch_id vid'
              \<longrightarrow> length pre \<le> length pre')
      \<longrightarrow> extract_video_id L url = Inr vid"
    using extract_shorts_general2 [OF _ _ _ _ assms, of L url u pre rest] by blast
  have 5: "extract_video_id L (py ''https://youtu.be/'' @ vid) = Inr vid"
    by (rule extract_short_link_template [OF assms])
  have 6: "extract_video_id L (py ''https://www.youtube.com/watch?v='' @ vid @ py ''&t=10s'') = Inr vid"
    by (rule extract_watch_template [OF assms])
  have 7: "extract_video_id L (py ''https://www.youtube.com/shorts/'' @ vid) = Inr vid"
    by (rule extract_shorts_template [OF assms])
  have 8: "extract_video_id L (py ''https://youtu.be/dQw4w9WgXcQ'') = Inr (py ''dQw4w9WgXcQ'')"
    by (rule extract_example_short_link)
  have 9: "extract_video_id L (py ''https://www.youtube.com/watch?v=dQw4w9WgXcQ&t=10s'')
        = Inr (py ''dQw4w9WgXcQ'')"
    by (rule extract_example_watch)
  have 10: "extract_video_id L (py ''https://www.youtube.com/shorts/dQw4w9WgXcQ'')
        = Inr (py ''dQw4w9WgXcQ'')"
    by (rule extract_example_shorts)
  show ?thesis
    by (intro conjI) (fact 1, fact 2, fact 3, fact 4, fact 5, fact 6, fact 7, fact 8, fact 9, fact 10)
qed

theorem extract_video_id_url_shapes_witness:
  "fullmatch_id (py ''dQw4w9WgXcQ'')
   \<and> urlparse plain_lib (strip (py ''https://youtu.be/dQw4w9WgXcQ''))
       = Inr \<lparr>scheme = py ''https'', netloc = py ''youtu.be'', path = py ''/dQw4w9WgXcQ'',
               params = [], query = [], fragment = []\<rparr>
   \<and> extract_video_id plain_lib (py ''https://youtu.be/dQw4w9WgXcQ'') = Inr (py ''dQw4w9WgXcQ'')
   \<and> urlparse plain_lib (strip (py ''https://www.youtube.com/watch?v=dQw4w9WgXcQ&t=10s''))
       = Inr \<lparr>scheme = py ''https'', netloc = py ''www.youtube.com'', path = py ''/watch'',
               params = [], query = py ''v=dQw4w9WgXcQ&t=10s'', fragment = []\<rparr>
   \<and> query_value (py ''v=dQw4w9WgXcQ&t=10s'') (py ''v'') = Some (py ''dQw4w9WgXcQ'')
   \<and> extract_video_id plain_lib (py ''https://www.youtube.com/watch?v=dQw4w9WgXcQ&t=10s'')
       = Inr (py ''dQw4w9WgXcQ'')
   \<and> urlparse plain_lib (strip (py ''https://www.youtube.com/shorts/dQw4w9WgXcQ''))
       = Inr \<lparr>scheme = py ''https'', netloc = py ''www.youtube.com'',
               path = py ''/shorts/dQw4w9WgXcQ'', params = [], query = [], fragment = []\<rparr>
   \<and> extract_video_id plain_lib (py ''https://www.youtube.com/shorts/dQw4w9WgXcQ'')
       = Inr (py ''dQw4w9WgXcQ'')"
proof -
  let ?id = "py ''dQw4w9WgXcQ''"
  let ?u1 = "\<lparr>scheme = py ''https'', netloc = py ''youtu.be'', path = py ''/dQw4w9WgXcQ'',
               params = [], query = [], fragment = []\<rparr>"
  let ?u2 = "\<lparr>scheme = py ''https'', netloc = py ''www.youtube.com'', path = py ''/watch'',
               params = [], query = py ''v=dQw4w9WgXcQ&t=10s'', fragment = []\<rparr>"
  let ?u3 = "\<lparr>scheme = py ''https'', netloc = py ''www.youtube.com'',
               path = py ''/shorts/dQw4w9WgXcQ'', params = [], query = [], fragment = []\<rparr>"
  have p1: "urlparse plain_lib (strip (py ''https://youtu.be/dQw4w9WgXcQ'')) = Inr ?u1"
    by (simp add: url_eval)
  have p2: "urlparse plain_lib (strip (py ''https://www.youtube.com/watch?v=dQw4w9WgXcQ&t=10s''))
            = Inr ?u2"
    by (simp add: url_eval)
  have p3: "urlparse plain_lib (strip (py ''https://www.youtube.com/shorts/dQw4w9WgXcQ'')) = Inr ?u3"
    by (simp add: url_eval)
  have q: "query_value (py ''v=dQw4w9WgXcQ&t=10s'') (py ''v'') = Some ?id"
    by (simp add: query_value_def url_eval)
  have a1: "path ?u1 = py ''/'' @ ?id @ []" and a3: "path ?u3 = py ''/shorts/'' @ ?id @ []"
    and a2: "path ?u2 = py ''/watch''" "query ?u2 = py ''v=dQw4w9WgXcQ&t=10s''"
    and h: "netloc ?u1 = py ''youtu.be''"
    by (simp_all add: py_def)
  note t1 = extract_video_id_url_shapes [OF fullmatch_id_example, of plain_lib
      "py ''https://youtu.be/dQw4w9WgXcQ''" ?u1 "[]", THEN conjunct1, rule_format]
  have e1: "extract_video_id plain_lib (py ''https://youtu.be/dQw4w9WgXcQ'') = Inr ?id"
    by (rule t1) (intro conjI disjI1 p1 h a1 refl)
  note t2 = extract_video_id_url_shapes [OF fullmatch_id_example, of plain_lib
      "py ''https://www.youtube.com/watch?v=dQw4w9WgXcQ&t=10s''" ?u2, THEN conjunct2,
      THEN conjunct1, rule_format]
  have q2: "query_value (query ?u2) (py ''v'') = Some ?id"
    using q by simp
  have e2: "extract_video_id plain_lib (py ''https://www.youtube.com/watch?v=dQw4w9WgXcQ&t=10s'')
            = Inr ?id"
    by (rule t2) (intro conjI p2 a2 q2)
  note t3 = extract_video_id_url_shapes [OF fullmatch_id_example, of plain_lib
      "py ''https://www.youtube.com/shorts/dQw4w9WgXcQ''" ?u3 "[]", THEN conjunct2,
      THEN conjunct2, THEN conjunct1, rule_format]
  have e3: "extract_video_id plain_lib (py ''https://www.youtube.com/shorts/dQw4w9WgXcQ'') = Inr ?id"
    by (rule t3) (intro conjI disjI1 p3 a3 refl)
  show ?thesis
    by (intro conjI) (fact fullmatch_id_example, fact p1, fact e1, fact p2, fact q, fact e2, fact p3, fact e3)
qed

text \<open>
  The code against the four shapes of the specification. The short-link shape of the
  specification is within what line 30 accepts, and what the search of line 42 finds is
  either the shorts shape or \<open>/shorts/\<close> and eleven characters of the class continued by a
  further character of the same segment.
\<close>

lemma shorts_segment_in_decomp:
  "shorts_segment_in p \<Longrightarrow>
     \<exists>pre vid rest. p = pre @ py ''/shorts/'' @ vid @ rest \<and> fullmatch_id vid
        \<and> (rest = [] \<or> hd rest = 47)"
proof (induction p)
  case Nil
  then show ?case by simp
next
  case (Cons c cs)
  define p where "p = c # cs"
  show ?case
  proof (cases "take 8 p = py ''/shorts/'' \<and> fullmatch_id (take 11 (drop 8 p))
        \<and> (drop 19 p = [] \<or> hd (drop 19 p) = 47)")
    case True
    then have e8: "take 8 p = py ''/shorts/''" and f: "fullmatch_id (take 11 (drop 8 p))"
      and r: "drop 19 p = [] \<or> hd (drop 19 p) = 47"
      by blast+
    have d: "drop 11 (drop 8 p) = drop 19 p"
      by simp
    have "take 8 p @ take 11 (drop 8 p) @ drop 11 (drop 8 p) = p"
      by (simp only: append_take_drop_id)
    then have "p = [] @ py ''/shorts/'' @ take 11 (drop 8 p) @ drop 19 p"
      by (simp only: e8 d append_Nil)
    with f r show ?thesis
      unfolding p_def [symmetric] by blast
  next
    case False
    from Cons.prems have "(take 8 (c # cs) = py ''/shorts/'' \<and> fullmatch_id (take 11 (drop 8 (c # cs)))
        \<and> (drop 19 (c # cs) = [] \<or> hd (drop 19 (c # cs)) = 47)) \<or> shorts_segment_in cs"
      by (simp only: shorts_segment_in.simps)
    with False have "shorts_segment_in cs"
      unfolding p_def by blast
    from Cons.IH [OF this] obtain pre vid rest
      where cs: "cs = pre @ py ''/shorts/'' @ vid @ rest" and v: "fullmatch_id vid"
        and r: "rest = [] \<or> hd rest = 47"
      by blast
    from cs have "c # cs = (c # pre) @ py ''/shorts/'' @ vid @ rest"
      by simp
    with v r show ?thesis
      by blast
  qed
qed

lemma shorts_segment_in_found:
  assumes "fullmatch_id vid" and "rest = [] \<or> hd rest = 47"
  shows "shorts_segment_in (pre @ py ''/shorts/'' @ vid @ rest)"
proof (induction pre)
  case Nil
  have lv: "length vid = 11"
    using assms(1) by (simp add: fullmatch_id_def)
  show ?case
    using assms lv by (simp add: py_def)
next
  case (Cons a pre)
  then show ?case
    by simp
qed

lemma shorts_segment_in_iff:
  "shorts_segment_in p \<longleftrightarrow>
     (\<exists>pre vid rest. p = pre @ py ''/shorts/'' @ vid @ rest \<and> fullmatch_id vid
        \<and> (rest = [] \<or> hd rest = 47))"
  using shorts_segment_in_decomp shorts_segment_in_found by blast

lemma first_segment_stripped:
  assumes "fullmatch_id (first_path_segment p)"
  shows "stripped_segment p = first_path_segment p"
proof (cases "p \<noteq> [] \<and> hd p = 47")
  case True
  then obtain cs where p: "p = 47 # cs"
    by (cases p) auto
  from assms have "takeWhile (\<lambda>c. c \<noteq> 47) cs \<noteq> []"
    by (auto simp: first_path_segment_def p fullmatch_id_def)
  then have "cs \<noteq> [] \<and> hd cs \<noteq> 47"
    by (cases cs) (auto split: if_splits)
  then have "dropWhile (\<lambda>c. c = 47) cs = cs"
    by (cases cs) auto
  then show ?thesis
    by (simp add: stripped_segment_def first_path_segment_def p)
next
  case False
  then have "dropWhile (\<lambda>c. c = 47) p = p"
    by (cases p) auto
  with False show ?thesis
    by (auto simp: stripped_segment_def first_path_segment_def)
qed

lemma shape_short_link_stripped: "shape_short_link L url \<Longrightarrow> short_link_stripped L url"
  unfolding shape_short_link_def short_link_stripped_def
  using first_segment_stripped by fastforce

lemma shorts_prefix_cases:
  "(\<exists>pre vid rest. p = pre @ py ''/shorts/'' @ vid @ rest \<and> fullmatch_id vid)
   \<longleftrightarrow> (\<exists>pre vid rest. p = pre @ py ''/shorts/'' @ vid @ rest \<and> fullmatch_id vid
           \<and> (rest = [] \<or> hd rest = 47))
       \<or> (\<exists>pre vid c rest. p = pre @ py ''/shorts/'' @ vid @ c # rest \<and> fullmatch_id vid
           \<and> c \<noteq> 47)"
proof
  assume "\<exists>pre vid rest. p = pre @ py ''/shorts/'' @ vid @ rest \<and> fullmatch_id vid"
  then obtain pre vid rest where p: "p = pre @ py ''/shorts/'' @ vid @ rest" and v: "fullmatch_id vid"
    by blast
  show "(\<exists>pre vid rest. p = pre @ py ''/shorts/'' @ vid @ rest \<and> fullmatch_id vid
           \<and> (rest = [] \<or> hd rest = 47))
       \<or> (\<exists>pre vid c rest. p = pre @ py ''/shorts/'' @ vid @ c # rest \<and> fullmatch_id vid
           \<and> c \<noteq> 47)"
  proof (cases rest)
    case Nil
    with p v show ?thesis
      by blast
  next
    case (Cons c r)
    show ?thesis
    proof (cases "c = 47")
      case True
      with Cons have "rest = [] \<or> hd rest = 47"
        by simp
      with p v show ?thesis
        by blast
    next
      case False
      from p Cons have "p = pre @ py ''/shorts/'' @ vid @ c # r"
        by simp
      with v False show ?thesis
        by blast
    qed
  qed
next
  assume "(\<exists>pre vid rest. p = pre @ py ''/shorts/'' @ vid @ rest \<and> fullmatch_id vid
           \<and> (rest = [] \<or> hd rest = 47))
       \<or> (\<exists>pre vid c rest. p = pre @ py ''/shorts/'' @ vid @ c # rest \<and> fullmatch_id vid
           \<and> c \<noteq> 47)"
  then show "\<exists>pre vid rest. p = pre @ py ''/shorts/'' @ vid @ rest \<and> fullmatch_id vid"
    by blast
qed

lemma shorts_block_returns_iff:
  assumes "urlparse L (strip url) = Inr u"
  shows "(\<exists>vid. shorts_block u = Inr vid) \<longleftrightarrow> shape_shorts L url \<or> shorts_overrun L url"
proof -
  have "(\<exists>vid. shorts_block u = Inr vid) \<longleftrightarrow> search_shorts (path u) \<noteq> None"
    by (auto simp: shorts_block_def split: option.splits)
  also have "\<dots> \<longleftrightarrow> (\<exists>pre vid rest. path u = pre @ py ''/shorts/'' @ vid @ rest \<and> fullmatch_id vid)"
    by (rule search_shorts_iff)
  also have "\<dots> \<longleftrightarrow> (\<exists>pre vid rest. path u = pre @ py ''/shorts/'' @ vid @ rest \<and> fullmatch_id vid
           \<and> (rest = [] \<or> hd rest = 47))
       \<or> (\<exists>pre vid c rest. path u = pre @ py ''/shorts/'' @ vid @ c # rest \<and> fullmatch_id vid
           \<and> c \<noteq> 47)"
    by (rule shorts_prefix_cases)
  also have "\<dots> \<longleftrightarrow> shape_shorts L url \<or> shorts_overrun L url"
    using assms by (simp add: shape_shorts_def shorts_overrun_def)
  finally show ?thesis .
qed

lemma extract_video_id_returns_iff:
  "(\<exists>vid. extract_video_id L url = Inr vid) \<longleftrightarrow>
     shape_bare url \<or> short_link_stripped L url \<or> shape_watch L url \<or> shape_shorts L url
       \<or> shorts_overrun L url"
proof (cases "fullmatch_id (strip url)")
  case True
  then show ?thesis
    by (simp add: extract_video_id_eq shape_bare_def)
next
  case bare: False
  show ?thesis
  proof (cases "urlparse L (strip url)")
    case (Inl e)
    with bare show ?thesis
      by (simp add: extract_video_id_eq shape_bare_def short_link_stripped_def
            shape_watch_def shape_shorts_def shorts_overrun_def)
  next
    case (Inr u)
    note shorts = shorts_block_returns_iff [OF Inr]
    have sl: "short_link_stripped L url \<longleftrightarrow>
        (netloc u = py ''youtu.be'' \<or> netloc u = py ''www.youtu.be'')
        \<and> fullmatch_id (stripped_segment (path u))"
      using Inr by (auto simp: short_link_stripped_def)
    have w: "shape_watch L url \<longleftrightarrow>
        path u = py ''/watch''
        \<and> (\<exists>vid. query_value (query u) (py ''v'') = Some vid \<and> fullmatch_id vid)"
      using Inr by (auto simp: shape_watch_def)
    show ?thesis
      using bare Inr shorts
      by (simp add: extract_video_id_eq shape_bare_def sl w) blast
  qed
qed

lemma extract_video_id_error:
  "extract_video_id L url = Inl e \<Longrightarrow> \<exists>m. e = ValueError m"
  by (auto simp: extract_video_id_eq shorts_block_def
        split: if_splits sum.splits option.splits dest: urlparse_error)

lemma extract_video_id_line_46:
  assumes "\<not> shape_bare url" and "\<not> short_link_stripped L url" and "\<not> shape_watch L url"
    and "\<not> shape_shorts L url" and "\<not> shorts_overrun L url"
    and u: "urlparse L (strip url) = Inr u"
  shows "extract_video_id L url = Inl (ValueError VideoIdNotExtracted)"
proof -
  from assms(1) have bare: "\<not> fullmatch_id (strip url)"
    by (simp add: shape_bare_def)
  from assms(2) u have sl: "\<not> ((netloc u = py ''youtu.be'' \<or> netloc u = py ''www.youtu.be'')
      \<and> fullmatch_id (stripped_segment (path u)))"
    by (simp add: short_link_stripped_def)
  from assms(3) u have w: "\<not> (path u = py ''/watch''
      \<and> (\<exists>vid. query_value (query u) (py ''v'') = Some vid \<and> fullmatch_id vid))"
    by (simp add: shape_watch_def)
  from assms(4,5) shorts_block_returns_iff [OF u] have "\<not> (\<exists>vid. shorts_block u = Inr vid)"
    by blast
  then have sh: "search_shorts (path u) = None"
    by (auto simp: shorts_block_def split: option.splits)
  have "extract_video_id L url = shorts_block u"
    using bare sl w u by (simp only: extract_video_id_eq if_False sum.case)
  then show ?thesis
    by (simp add: shorts_block_def sh)
qed

lemma extract_short_link_stripped:
  assumes u: "urlparse L (strip url) = Inr u"
    and host: "netloc u = py ''youtu.be'' \<or> netloc u = py ''www.youtu.be''"
    and seg: "fullmatch_id (stripped_segment (path u))"
  shows "extract_video_id L url = Inr (stripped_segment (path u))"
proof -
  have bare: "\<not> fullmatch_id (strip url)"
  proof
    assume "fullmatch_id (strip url)"
    from urlparse_identifier [OF this, of L] u have "netloc u = []"
      by auto
    with host show False
      by (auto simp: py_def)
  qed
  show ?thesis
    using bare u host seg by (simp add: extract_video_id_eq)
qed

lemma extract_example_not_a_url:
  "extract_video_id L (py ''not a url'') = Inl (ValueError VideoIdNotExtracted)"
  by (simp add: url_eval)

lemma extract_example_extra_slash:
  "extract_video_id L (py ''https://youtu.be//dQw4w9WgXcQ'') = Inr (py ''dQw4w9WgXcQ'')"
  by (simp add: url_eval)

lemma extract_example_shorts_overrun:
  "extract_video_id L (py ''https://www.youtube.com/shorts/dQw4w9WgXcQEXTRA'')
     = Inr (py ''dQw4w9WgXcQ'')"
  by (simp add: url_eval)

lemma extra_slash_unrecognised: "\<not> recognised plain_lib (py ''https://youtu.be//dQw4w9WgXcQ'')"
proof -
  let ?url = "py ''https://youtu.be//dQw4w9WgXcQ''"
  have s: "strip ?url = ?url"
    by (simp add: url_eval)
  have u: "urlparse plain_lib ?url
           = Inr \<lparr>scheme = py ''https'', netloc = py ''youtu.be'', path = py ''//dQw4w9WgXcQ'',
                   params = [], query = [], fragment = []\<rparr>"
    by (simp add: url_eval)
  have "\<not> shorts_segment_in (py ''//dQw4w9WgXcQ'')"
    by (simp add: py_def)
  with shorts_segment_in_iff [of "py ''//dQw4w9WgXcQ''"]
  have no_shorts: "\<not> (\<exists>pre vid rest. py ''//dQw4w9WgXcQ'' = pre @ py ''/shorts/'' @ vid @ rest
                       \<and> fullmatch_id vid \<and> (rest = [] \<or> hd rest = 47))"
    by simp
  have "\<not> shape_bare ?url"
    by (simp add: shape_bare_def s) (simp add: fullmatch_id_def py_def)
  moreover have "\<not> shape_short_link plain_lib ?url"
    by (simp add: shape_short_link_def s u) (simp add: first_path_segment_def fullmatch_id_def py_def)
  moreover have "\<not> shape_watch plain_lib ?url"
    by (simp add: shape_watch_def s u) (simp add: py_def)
  moreover have "\<not> shape_shorts plain_lib ?url"
    using no_shorts by (simp add: shape_shorts_def s u)
  ultimately show ?thesis
    by (simp add: recognised_def)
qed

text \<open>
  The claim C4 as the specification states it fails. The short link
  \<open>https://youtu.be//dQw4w9WgXcQ\<close> has the path \<open>//dQw4w9WgXcQ\<close>, whose first segment is
  empty: the input has none of the four shapes. Line 30 strips the slashes from the
  path before it splits it, and the identifier is returned.
\<close>

theorem extract_video_id_extra_slash:
  "\<not> recognised plain_lib (py ''https://youtu.be//dQw4w9WgXcQ'')
   \<and> extract_video_id plain_lib (py ''https://youtu.be//dQw4w9WgXcQ'') = Inr (py ''dQw4w9WgXcQ'')"
  using extra_slash_unrecognised extract_example_extra_slash by blast

text \<open>
  The search of line 42 is not anchored at the end of the segment. In
  \<open>https://www.youtube.com/shorts/dQw4w9WgXcQEXTRA\<close> the segment after \<open>/shorts/\<close> has 16
  characters and is no identifier, so the input has none of the four shapes; the first
  11 characters are returned. (Lines 31 and 38 test the whole token with
  \<^verbatim>\<open>re.fullmatch\<close>.)
\<close>

lemma shorts_overrun_unrecognised:
  "\<not> recognised plain_lib (py ''https://www.youtube.com/shorts/dQw4w9WgXcQEXTRA'')
   \<and> shorts_overrun plain_lib (py ''https://www.youtube.com/shorts/dQw4w9WgXcQEXTRA'')"
proof -
  let ?url = "py ''https://www.youtube.com/shorts/dQw4w9WgXcQEXTRA''"
  let ?p = "py ''/shorts/dQw4w9WgXcQEXTRA''"
  have s: "strip ?url = ?url"
    by (simp add: url_eval)
  have u: "urlparse plain_lib ?url
           = Inr \<lparr>scheme = py ''https'', netloc = py ''www.youtube.com'', path = ?p,
                   params = [], query = [], fragment = []\<rparr>"
    by (simp add: url_eval)
  have "\<not> shorts_segment_in ?p"
    by (simp add: py_def fullmatch_id_def)
  with shorts_segment_in_iff [of ?p]
  have no_shorts: "\<not> (\<exists>pre vid rest. ?p = pre @ py ''/shorts/'' @ vid @ rest
                       \<and> fullmatch_id vid \<and> (rest = [] \<or> hd rest = 47))"
    by simp
  have "\<not> shape_bare ?url"
    by (simp add: shape_bare_def s) (simp add: fullmatch_id_def py_def)
  moreover have "\<not> shape_short_link plain_lib ?url"
    by (simp add: shape_short_link_def s u) (simp add: py_def)
  moreover have "\<not> shape_watch plain_lib ?url"
    by (simp add: shape_watch_def s u) (simp add: py_def)
  moreover have "\<not> shape_shorts plain_lib ?url"
    using no_shorts by (simp add: shape_shorts_def s u)
  ultimately have 1: "\<not> recognised plain_lib ?url"
    by (simp add: recognised_def)
  have "?p = [] @ py ''/shorts/'' @ py ''dQw4w9WgXcQ'' @ 69 # py ''XTRA''"
    by (simp add: py_def)
  moreover have "(69::nat) \<noteq> 47"
    by simp
  ultimately have "\<exists>pre vid c rest. ?p = pre @ py ''/shorts/'' @ vid @ c # rest \<and> fullmatch_id vid
      \<and> c \<noteq> 47"
    using fullmatch_id_example by blast
  then have 2: "shorts_overrun plain_lib ?url"
    by (simp add: shorts_overrun_def s u)
  from 1 2 show ?thesis
    by blast
qed

text \<open>
  C4, amended. An input fails when it has none of the four shapes and is none of the
  inputs on which the code is known to accept more: a short-link URL whose identifier
  follows several slashes, and a path in which \<open>/shorts/\<close> and eleven characters of the
  class are continued within the segment. Such an input returns no value and raises a
  \<open>ValueError\<close>, the exception of \<open>app.py\<close> that the specification calls
  \<open>InvalidReferenceError\<close>; it is the one of line 46 whenever \<open>urlparse\<close> itself returns.
  \<open>not a url\<close> is such an input. On a short-link URL whose path, without its leading
  slashes, starts with an identifier segment, that identifier is returned. Nothing is
  said of a path that continues the eleven characters after \<open>/shorts/\<close>.
\<close>

theorem extract_video_id_no_shape:
  "(\<not> recognised L url \<and> \<not> short_link_stripped L url \<and> \<not> shorts_overrun L url
      \<longrightarrow> (\<exists>m. extract_video_id L url = Inl (ValueError m)))
   \<and> (\<not> recognised L url \<and> \<not> short_link_stripped L url \<and> \<not> shorts_overrun L url
       \<and> (\<exists>u. urlparse L (strip url) = Inr u)
      \<longrightarrow> extract_video_id L url = Inl (ValueError VideoIdNotExtracted))
   \<and> (urlparse L (strip url) = Inr u
       \<and> (netloc u = py ''youtu.be'' \<or> netloc u = py ''www.youtu.be'')
       \<and> fullmatch_id (stripped_segment (path u))
      \<longrightarrow> extract_video_id L url = Inr (stripped_segment (path u)))
   \<and> extract_video_id L (py ''not a url'') = Inl (ValueError VideoIdNotExtracted)"
proof -
  have 1: "\<exists>m. extract_video_id L url = Inl (ValueError m)"
    if "\<not> recognised L url" "\<not> short_link_stripped L url" "\<not> shorts_overrun L url"
  proof (cases "extract_video_id L url")
    case (Inl e)
    with extract_video_id_error [OF Inl] show ?thesis
      by auto
  next
    case (Inr vid)
    with that extract_video_id_returns_iff [of L url] show ?thesis
      unfolding recognised_def by blast
  qed
  have 2: "extract_video_id L url = Inl (ValueError VideoIdNotExtracted)"
    if "\<not> recognised L url" "\<not> short_link_stripped L url" "\<not> shorts_overrun L url"
      "\<exists>u. urlparse L (strip url) = Inr u"
  proof -
    from that(4) obtain u' where "urlparse L (strip url) = Inr u'"
      by blast
    with that(1,2,3) show ?thesis
      unfolding recognised_def by (intro extract_video_id_line_46) blast+
  qed
  have 3: "urlparse L (strip url) = Inr u
       \<and> (netloc u = py ''youtu.be'' \<or> netloc u = py ''www.youtu.be'')
       \<and> fullmatch_id (stripped_segment (path u))
      \<longrightarrow> extract_video_id L url = Inr (stripped_segment (path u))"
    using extract_short_link_stripped by blast
  have 4: "extract_video_id L (py ''not a url'') = Inl (ValueError VideoIdNotExtracted)"
    by (rule extract_example_not_a_url)
  from 1 2 3 4 show ?thesis
    by blast
qed

lemma not_a_url_no_shape:
  "\<not> recognised plain_lib (py ''not a url'') \<and> \<not> short_link_stripped plain_lib (py ''not a url'')
   \<and> \<not> shorts_overrun plain_lib (py ''not a url'')"
proof -
  let ?url = "py ''not a url''"
  have s: "strip ?url = ?url"
    by (simp add: url_eval)
  have u: "urlparse plain_lib ?url
           = Inr \<lparr>scheme = [], netloc = [], path = py ''not a url'', params = [],
                   query = [], fragment = []\<rparr>"
    by (simp add: url_eval)
  have "search_shorts ?url = None"
    by (simp add: url_eval)
  with search_shorts_iff [of ?url]
  have no_shorts: "\<not> (\<exists>pre vid rest. ?url = pre @ py ''/shorts/'' @ vid @ rest
                       \<and> fullmatch_id vid)"
    by simp
  have "\<not> shape_bare ?url"
    by (simp add: shape_bare_def s) (simp add: fullmatch_id_def py_def)
  moreover have "\<not> shape_short_link plain_lib ?url"
    by (simp add: shape_short_link_def s u) (simp add: py_def)
  moreover have "\<not> shape_watch plain_lib ?url"
    by (simp add: shape_watch_def s u) (simp add: py_def)
  moreover have "\<not> shape_shorts plain_lib ?url"
    using no_shorts by (simp add: shape_shorts_def s u) blast
  moreover have "\<not> short_link_stripped plain_lib ?url"
    by (simp add: short_link_stripped_def s u) (simp add: py_def)
  moreover have "\<not> shorts_overrun plain_lib ?url"
    using no_shorts by (simp add: shorts_overrun_def s u) blast
  ultimately show ?thesis
    by (simp add: recognised_def)
qed

theorem extract_video_id_no_shape_witness:
  "\<not> recognised plain_lib (py ''not a url'') \<and> \<not> short_link_stripped plain_lib (py ''not a url'')
   \<and> \<not> shorts_overrun plain_lib (py ''not a url'')
   \<and> (\<exists>u. urlparse plain_lib (strip (py ''not a url'')) = Inr u)
   \<and> extract_video_id plain_lib (py ''not a url'') = Inl (ValueError VideoIdNotExtracted)
   \<and> urlparse plain_lib (strip (py ''https://youtu.be//dQw4w9WgXcQ''))
       = Inr \<lparr>scheme = py ''https'', netloc = py ''youtu.be'', path = py ''//dQw4w9WgXcQ'',
               params = [], query = [], fragment = []\<rparr>
   \<and> fullmatch_id (stripped_segment (py ''//dQw4w9WgXcQ''))
   \<and> extract_video_id plain_lib (py ''https://youtu.be//dQw4w9WgXcQ'')
       = Inr (stripped_segment (py ''//dQw4w9WgXcQ''))"
proof -
  let ?u = "\<lparr>scheme = py ''https'', netloc = py ''youtu.be'', path = py ''//dQw4w9WgXcQ'',
               params = [], query = [], fragment = []\<rparr>"
  have u: "\<exists>u. urlparse plain_lib (strip (py ''not a url'')) = Inr u"
    by (simp add: url_eval)
  note t2 = extract_video_id_no_shape [of plain_lib "py ''not a url''", THEN conjunct2,
      THEN conjunct1, rule_format]
  have e: "extract_video_id plain_lib (py ''not a url'') = Inl (ValueError VideoIdNotExtracted)"
    by (rule t2) (intro conjI not_a_url_no_shape [THEN conjunct1]
        not_a_url_no_shape [THEN conjunct2, THEN conjunct1]
        not_a_url_no_shape [THEN conjunct2, THEN conjunct2] u)
  have p: "urlparse plain_lib (strip (py ''https://youtu.be//dQw4w9WgXcQ'')) = Inr ?u"
    by (simp add: url_eval)
  have f: "fullmatch_id (stripped_segment (py ''//dQw4w9WgXcQ''))"
    by (simp add: stripped_segment_def fullmatch_id_def is_id_char_def py_def)
  have h: "netloc ?u = py ''youtu.be''" and pu: "path ?u = py ''//dQw4w9WgXcQ''"
    by simp_all
  note t3 = extract_video_id_no_shape [of plain_lib "py ''https://youtu.be//dQw4w9WgXcQ''" ?u,
      THEN conjunct2, THEN conjunct2, THEN conjunct1, rule_format]
  have "extract_video_id plain_lib (py ''https://youtu.be//dQw4w9WgXcQ'')
        = Inr (stripped_segment (path ?u))"
    by (rule t3) (simp only: p h pu f simp_thms)
  then have s: "extract_video_id plain_lib (py ''https://youtu.be//dQw4w9WgXcQ'')
        = Inr (stripped_segment (py ''//dQw4w9WgXcQ''))"
    by (simp only: pu)
  show ?thesis
    by (intro conjI) (fact not_a_url_no_shape [THEN conjunct1],
      fact not_a_url_no_shape [THEN conjunct2, THEN conjunct1],
      fact not_a_url_no_shape [THEN conjunct2, THEN conjunct2], fact u, fact e, fact p, fact f, fact s)
qed

subsection \<open>The transcript fetcher\<close>

lemma join_concat:
  "join sep ts = (case ts of [] \<Rightarrow> [] | t # ts' \<Rightarrow> t @ concat (map (\<lambda>x. sep @ x) ts'))"
  by (induction sep ts rule: join.induct) simp_all

lemma join_spec_join: "join (py '' '') ts = spec_join ts"
proof -
  have e: "(@) [32::nat] = (#) 32"
    by (rule ext) simp
  show ?thesis
    by (cases ts) (simp_all add: join_concat spec_join_def py_def e)
qed

lemma join_snippets_spec:
  "join_snippets snippets
     = strip (spec_join (map strip (filter (\<lambda>t. t \<noteq> []) (map snippet_text snippets))))"
  by (simp add: join_snippets_def join_spec_join filter_map comp_def)

lemma hds_append:
  "has_double_space (a @ b) \<longleftrightarrow>
     has_double_space a \<or> has_double_space b \<or> (a \<noteq> [] \<and> b \<noteq> [] \<and> last a = 32 \<and> hd b = 32)"
proof (induction a)
  case Nil
  show ?case
    by simp
next
  case (Cons x xs)
  note IH = Cons.IH
  show ?case
  proof (cases xs)
    case Nil
    then show ?thesis
      by (cases b) auto
  next
    case (Cons y ys)
    with IH show ?thesis
      by auto
  qed
qed

lemma strip_with_decomp:
  "s = takeWhile P s @ strip_with P s @ rev (takeWhile P (rev (dropWhile P s)))"
proof -
  define d where "d = dropWhile P s"
  have "rev (takeWhile P (rev d) @ dropWhile P (rev d)) = rev (rev d)"
    by (simp only: takeWhile_dropWhile_id)
  then have "rev (dropWhile P (rev d)) @ rev (takeWhile P (rev d)) = d"
    by (simp only: rev_append rev_rev_ident)
  then have "takeWhile P s @ rev (dropWhile P (rev d)) @ rev (takeWhile P (rev d)) = takeWhile P s @ d"
    by simp
  then show ?thesis
    by (simp add: d_def strip_with_def rstrip_with_def lstrip_with_def)
qed

lemma hds_strip: "has_double_space (strip s) \<Longrightarrow> has_double_space s"
proof -
  assume a: "has_double_space (strip s)"
  have "s = takeWhile isspace s @ strip s @ rev (takeWhile isspace (rev (dropWhile isspace s)))"
    unfolding strip_def by (rule strip_with_decomp)
  then have "has_double_space s
     = has_double_space (takeWhile isspace s @ strip s @ rev (takeWhile isspace (rev (dropWhile isspace s))))"
    by simp
  with a show ?thesis
    by (simp add: hds_append)
qed

lemma strip_with_hd: "strip_with P s \<noteq> [] \<Longrightarrow> \<not> P (hd (strip_with P s))"
proof -
  assume ne: "strip_with P s \<noteq> []"
  define d where "d = dropWhile P s"
  have sw: "strip_with P s = rev (dropWhile P (rev d))"
    by (simp add: d_def strip_with_def rstrip_with_def lstrip_with_def)
  have dne: "d \<noteq> []"
    using ne sw by auto
  then have hd_d: "\<not> P (hd d)"
    unfolding d_def by (metis hd_dropWhile)
  have "rev (takeWhile P (rev d) @ dropWhile P (rev d)) = rev (rev d)"
    by (simp only: takeWhile_dropWhile_id)
  then have "rev (dropWhile P (rev d)) @ rev (takeWhile P (rev d)) = d"
    by (simp only: rev_append rev_rev_ident)
  then have "hd d = hd (rev (dropWhile P (rev d)) @ rev (takeWhile P (rev d)))"
    by simp
  also have "\<dots> = hd (rev (dropWhile P (rev d)))"
    using ne sw by simp
  finally show ?thesis
    using hd_d sw by simp
qed

lemma strip_with_last: "strip_with P s \<noteq> [] \<Longrightarrow> \<not> P (last (strip_with P s))"
proof -
  assume ne: "strip_with P s \<noteq> []"
  define d where "d = dropWhile P s"
  have sw: "strip_with P s = rev (dropWhile P (rev d))"
    by (simp add: d_def strip_with_def rstrip_with_def lstrip_with_def)
  have "dropWhile P (rev d) \<noteq> []"
    using ne sw by auto
  then have "\<not> P (hd (dropWhile P (rev d)))"
    by (rule hd_dropWhile)
  moreover have "last (rev (dropWhile P (rev d))) = hd (dropWhile P (rev d))"
    by (rule last_rev)
  ultimately show ?thesis
    using sw by simp
qed

lemma space_isspace: "isspace 32"
  by (simp add: isspace_def)

lemma strip_ends:
  "strip s \<noteq> [] \<Longrightarrow> hd (strip s) \<noteq> 32 \<and> last (strip s) \<noteq> 32"
  using strip_with_hd [of isspace s] strip_with_last [of isspace s] space_isspace
  unfolding strip_def by metis

lemma hds_sep_texts:
  assumes "\<And>t. t \<in> set ts \<Longrightarrow> t \<noteq> [] \<and> hd t \<noteq> 32 \<and> last t \<noteq> 32 \<and> \<not> has_double_space t"
  shows "\<not> has_double_space (concat (map (\<lambda>x. 32 # x) ts))"
  using assms
proof (induction ts)
  case Nil
  then show ?case by simp
next
  case (Cons t ts)
  have t: "t \<noteq> []" "hd t \<noteq> 32" "last t \<noteq> 32" "\<not> has_double_space t"
    using Cons.prems [of t] by simp_all
  then obtain x xs where x: "t = x # xs"
    by (cases t) auto
  have one: "\<not> has_double_space (32 # t)"
    using t x by simp
  have rest: "\<not> has_double_space (concat (map (\<lambda>x. 32 # x) ts))"
    using Cons by simp
  have "concat (map (\<lambda>x. 32 # x) (t # ts)) = (32 # t) @ concat (map (\<lambda>x. 32 # x) ts)"
    by simp
  then show ?case
    using one rest t by (simp only: hds_append) simp
qed

lemma hds_spec_join:
  assumes "\<And>t. t \<in> set ts \<Longrightarrow> t \<noteq> [] \<and> hd t \<noteq> 32 \<and> last t \<noteq> 32 \<and> \<not> has_double_space t"
  shows "\<not> has_double_space (spec_join ts)"
proof (cases ts)
  case Nil
  then show ?thesis
    by (simp add: spec_join_def)
next
  case (Cons t ts')
  have t: "t \<noteq> []" "last t \<noteq> 32" "\<not> has_double_space t"
    using assms [of t] Cons by simp_all
  have "\<not> has_double_space (concat (map (\<lambda>x. 32 # x) ts'))"
    by (rule hds_sep_texts) (use assms Cons in simp)
  then show ?thesis
    using t Cons by (simp add: spec_join_def hds_append)
qed

text \<open>
  C5, as the code has it. When the provider returns snippets, \<open>fetch_transcript_text\<close>
  returns the texts of the snippets whose text is not empty, each trimmed, joined in
  order with one space between consecutive texts, and the whole trimmed. A text is
  tested for emptiness before it is trimmed. When no snippet consists of whitespace
  alone, and no trimmed text holds two adjacent spaces, the result holds no two
  adjacent spaces.
\<close>

theorem fetch_transcript_text_spec:
  assumes "provider video_id languages = Inr snippets"
  shows "fetch_transcript_text provider video_id languages
           = Inr (strip (spec_join (map strip (filter (\<lambda>t. t \<noteq> []) (map snippet_text snippets)))))
         \<and> ((\<forall>s \<in> set snippets. snippet_text s \<noteq> [] \<longrightarrow>
                 strip (snippet_text s) \<noteq> [] \<and> \<not> has_double_space (strip (snippet_text s)))
             \<longrightarrow> (\<exists>r. fetch_transcript_text provider video_id languages = Inr r
                       \<and> \<not> has_double_space r))"
proof -
  let ?ts = "map strip (filter (\<lambda>t. t \<noteq> []) (map snippet_text snippets))"
  have eq: "fetch_transcript_text provider video_id languages = Inr (strip (spec_join ?ts))"
    using assms by (simp add: fetch_transcript_text_def join_snippets_spec)
  have "\<not> has_double_space (strip (spec_join ?ts))"
    if h: "\<forall>s \<in> set snippets. snippet_text s \<noteq> [] \<longrightarrow>
             strip (snippet_text s) \<noteq> [] \<and> \<not> has_double_space (strip (snippet_text s))"
  proof -
    have "\<not> has_double_space (spec_join ?ts)"
    proof (rule hds_spec_join)
      fix t
      assume "t \<in> set ?ts"
      then obtain s where s: "s \<in> set snippets" "snippet_text s \<noteq> []" "t = strip (snippet_text s)"
        by auto
      with h have "t \<noteq> []" "\<not> has_double_space t"
        by auto
      moreover from \<open>t \<noteq> []\<close> s(3) have "hd t \<noteq> 32 \<and> last t \<noteq> 32"
        using strip_ends [of "snippet_text s"] by simp
      ultimately show "t \<noteq> [] \<and> hd t \<noteq> 32 \<and> last t \<noteq> 32 \<and> \<not> has_double_space t"
        by simp
    qed
    then show ?thesis
      using hds_strip by blast
  qed
  with eq show ?thesis
    by simp
qed

lemmas fetch_eval = fetch_transcript_text_def join_snippets_def strip_def strip_with_def
  lstrip_with_def rstrip_with_def isspace_def py_def

theorem fetch_transcript_text_spec_witness:
  "fetch_transcript_text (\<lambda>v l. Inr example_snippets) (py ''dQw4w9WgXcQ'') default_languages
     = Inr (py ''Hello world'')
   \<and> \<not> has_double_space (py ''Hello world'')"
proof -
  have h: "\<forall>s \<in> set example_snippets. snippet_text s \<noteq> [] \<longrightarrow>
             strip (snippet_text s) \<noteq> [] \<and> \<not> has_double_space (strip (snippet_text s))"
    by (simp add: example_snippets_def fetch_eval)
  have v: "fetch_transcript_text (\<lambda>v l. Inr example_snippets) (py ''dQw4w9WgXcQ'') default_languages
     = Inr (py ''Hello world'')"
    by (simp add: example_snippets_def fetch_eval)
  have "\<exists>r. fetch_transcript_text (\<lambda>v l. Inr example_snippets) (py ''dQw4w9WgXcQ'')
              default_languages = Inr r \<and> \<not> has_double_space r"
    using h fetch_transcript_text_spec [of "\<lambda>v l. Inr example_snippets" "py ''dQw4w9WgXcQ''"
        default_languages example_snippets]
    by blast
  with v show ?thesis
    by simp
qed

text \<open>
  A snippet that consists of whitespace alone is kept, as an empty text between two
  separators: the snippets \<open>a\<close>, one space, \<open>b\<close> give \<open>a\<close> and \<open>b\<close> two spaces apart.
\<close>

theorem fetch_transcript_text_double_space:
  "fetch_transcript_text (\<lambda>v l. Inr blank_snippets) (py ''dQw4w9WgXcQ'') default_languages
     = Inr (py ''a  b'')
   \<and> has_double_space (py ''a  b'')
   \<and> list_all (\<lambda>s. \<not> has_double_space (strip (snippet_text s))) blank_snippets"
  by (simp add: blank_snippets_def fetch_eval)

subsection \<open>The share link\<close>

text \<open>UTF-8: decoding the encoding of a scalar value gives it back. The bytes of a code
  point are its digits in base 64, under the marks of the lead and continuation
  bytes.\<close>

lemma utf8_decode_1:
  assumes "c < 0x80"
  shows "utf8_decode (utf8_encode_char c @ bs) = c # utf8_decode bs"
  using assms by (simp add: utf8_encode_char_def)

lemma digits3:
  fixes a c p q r :: nat
  assumes "a = p * 64 + q" "c = a * 64 + r"
  shows "p * 4096 + q * 64 + r = c"
  using assms by simp

lemma digits4:
  fixes a c o' p q r :: nat
  assumes "a = o' * 64 + p" "c = a * 4096 + q * 64 + r"
  shows "o' * 262144 + p * 4096 + q * 64 + r = c"
  using assms by simp

lemma split3:
  fixes c :: nat
  shows "(c div 4096) * 4096 + ((c div 64) mod 64) * 64 + c mod 64 = c"
proof -
  have d: "c div 4096 = c div 64 div 64"
    using div_mult2_eq [of c 64 64] by simp
  have "c div 64 = (c div 64 div 64) * 64 + (c div 64) mod 64"
    by simp
  moreover have "c = (c div 64) * 64 + c mod 64"
    by simp
  ultimately have "(c div 64 div 64) * 4096 + ((c div 64) mod 64) * 64 + c mod 64 = c"
    by (rule digits3)
  then show ?thesis
    by (simp only: d)
qed

lemma split4:
  fixes c :: nat
  shows "(c div 262144) * 262144 + ((c div 4096) mod 64) * 4096 + ((c div 64) mod 64) * 64
           + c mod 64 = c"
proof -
  have d: "c div 262144 = c div 4096 div 64"
    using div_mult2_eq [of c 4096 64] by simp
  have "c div 4096 = (c div 4096 div 64) * 64 + (c div 4096) mod 64"
    by simp
  moreover have "c = (c div 4096) * 4096 + ((c div 64) mod 64) * 64 + c mod 64"
    by (simp only: split3)
  ultimately have "(c div 4096 div 64) * 262144 + ((c div 4096) mod 64) * 4096
      + ((c div 64) mod 64) * 64 + c mod 64 = c"
    by (rule digits4)
  then show ?thesis
    by (simp only: d)
qed

lemma utf8_decode_2:
  assumes "0x80 \<le> c" "c < 0x800"
  shows "utf8_decode (utf8_encode_char c @ bs) = c # utf8_decode bs"
proof -
  define q where "q = c div 64"
  define r where "r = c mod 64"
  have c: "q * 64 + r = c"
    by (simp add: q_def r_def)
  have r: "r < 64"
    by (simp add: r_def)
  have q: "2 \<le> q" "q < 32"
    using assms by (simp_all add: q_def div_less_iff_less_mult less_eq_div_iff_mult_less_eq)
  have enc: "utf8_encode_char c = [0xC0 + q, 0x80 + r]"
    using assms by (simp add: utf8_encode_char_def q_def r_def)
  show ?thesis
    unfolding enc using q r by (simp add: is_cont_def c)
qed

lemma utf8_decode_3:
  assumes "0x800 \<le> c" "c < 0x10000" "\<not> is_surrogate c"
  shows "utf8_decode (utf8_encode_char c @ bs) = c # utf8_decode bs"
proof -
  define p where "p = c div 4096"
  define q where "q = (c div 64) mod 64"
  define r where "r = c mod 64"
  have c: "p * 4096 + q * 64 + r = c"
    unfolding p_def q_def r_def by (rule split3)
  have r: "r < 64" and q: "q < 64"
    by (simp_all add: r_def q_def)
  have p: "p < 16"
    using assms by (simp add: p_def div_less_iff_less_mult)
  have lo: "32 \<le> q" if "p = 0"
    using assms(1) r that unfolding c [symmetric] by simp
  have hi: "q < 32" if "p = 13"
    using assms(3) r q that unfolding c [symmetric] is_surrogate_def by simp
  have enc: "utf8_encode_char c = [0xE0 + p, 0x80 + q, 0x80 + r]"
    using assms by (simp add: utf8_encode_char_def p_def q_def r_def)
  have s: "second_ok (0xE0 + p) (0x80 + q)"
    using p q lo hi by (auto simp: second_ok_def is_cont_def)
  show ?thesis
    unfolding enc using p q r s by (simp add: is_cont_def c)
qed

lemma utf8_decode_4:
  assumes "0x10000 \<le> c" "c < 0x110000"
  shows "utf8_decode (utf8_encode_char c @ bs) = c # utf8_decode bs"
proof -
  define o' where "o' = c div 262144"
  define p where "p = (c div 4096) mod 64"
  define q where "q = (c div 64) mod 64"
  define r where "r = c mod 64"
  have c: "o' * 262144 + p * 4096 + q * 64 + r = c"
    unfolding o'_def p_def q_def r_def by (rule split4)
  have r: "r < 64" and q: "q < 64" and p: "p < 64"
    by (simp_all add: r_def q_def p_def)
  have o: "o' < 5"
    using assms by (simp add: o'_def div_less_iff_less_mult)
  have lo: "16 \<le> p" if "o' = 0"
    using assms(1) r q that unfolding c [symmetric] by simp
  have hi: "p < 16" if "o' = 4"
    using assms(2) that unfolding c [symmetric] by simp
  have enc: "utf8_encode_char c = [0xF0 + o', 0x80 + p, 0x80 + q, 0x80 + r]"
    using assms by (simp add: utf8_encode_char_def o'_def p_def q_def r_def)
  have s: "second_ok (0xF0 + o') (0x80 + p)"
    using o p lo hi by (auto simp: second_ok_def is_cont_def)
  show ?thesis
    unfolding enc using o p q r s by (simp add: is_cont_def c)
qed

lemma utf8_decode_encode_char:
  assumes "is_scalar c"
  shows "utf8_decode (utf8_encode_char c @ bs) = c # utf8_decode bs"
proof (cases "c < 0x80")
  case True
  then show ?thesis
    by (rule utf8_decode_1)
next
  case one: False
  show ?thesis
  proof (cases "c < 0x800")
    case True
    with one show ?thesis
      by (simp add: utf8_decode_2)
  next
    case two: False
    show ?thesis
    proof (cases "c < 0x10000")
      case True
      with two assms show ?thesis
        by (simp add: utf8_decode_3 is_scalar_def)
    next
      case False
      with assms show ?thesis
        by (simp add: utf8_decode_4 is_scalar_def)
    qed
  qed
qed

lemma utf8_encode_char_bytes:
  "c < 0x110000 \<Longrightarrow> list_all (\<lambda>b. b < 256) (utf8_encode_char c)"
  by (auto simp: utf8_encode_char_def)

lemma utf8_round_trip:
  "list_all is_scalar s \<Longrightarrow>
     \<exists>bs. utf8_encode s = Inr bs \<and> utf8_decode bs = s \<and> list_all (\<lambda>b. b < 256) bs"
proof (induction s)
  case Nil
  then show ?case by simp
next
  case (Cons c s)
  then obtain bs where bs: "utf8_encode s = Inr bs" "utf8_decode bs = s" "list_all (\<lambda>b. b < 256) bs"
    by auto
  from Cons.prems have c: "is_scalar c"
    by simp
  then have "utf8_encode (c # s) = Inr (utf8_encode_char c @ bs)"
    using bs(1) by (simp add: is_scalar_def)
  moreover have "utf8_decode (utf8_encode_char c @ bs) = c # s"
    using utf8_decode_encode_char [OF c] bs(2) by simp
  moreover have "list_all (\<lambda>b. b < 256) (utf8_encode_char c @ bs)"
    using utf8_encode_char_bytes [of c] c bs(3) by (simp add: is_scalar_def)
  ultimately show ?case
    by blast
qed

text \<open>Percent-encoding: unquoting the quoted bytes gives them back, and the quoted
  string is ASCII, which \<open>unquote\<close> decodes in one run.\<close>

lemma hexdigit_hex: "n < 16 \<Longrightarrow> is_hexdig (hexdigit n) \<and> hexval (hexdigit n) = n"
  by (auto simp: hexdigit_def is_hexdig_def hexval_def)

lemma unquote_to_bytes_quote_byte:
  assumes "b < 256"
  shows "unquote_to_bytes (quote_byte b @ rest) = b # unquote_to_bytes rest"
proof (cases "is_safe b")
  case True
  then have "b \<noteq> 37"
    by (auto simp: is_safe_def)
  with True show ?thesis
    by (simp add: quote_byte_def)
next
  case False
  have hi: "b div 16 < 16"
    using assms by (simp add: div_less_iff_less_mult)
  have lo: "b mod 16 < 16"
    by simp
  have v: "b div 16 * 16 + b mod 16 = b"
    by simp
  show ?thesis
    using False hexdigit_hex [OF hi] hexdigit_hex [OF lo] v
    by (simp add: quote_byte_def)
qed

lemma unquote_to_bytes_quote:
  "list_all (\<lambda>b. b < 256) bs \<Longrightarrow> unquote_to_bytes (quote_from_bytes bs) = bs"
proof (induction bs)
  case Nil
  then show ?case
    by (simp add: quote_from_bytes_def)
next
  case (Cons b bs)
  then have "unquote_to_bytes (quote_byte b @ quote_from_bytes bs) = b # bs"
    by (simp add: unquote_to_bytes_quote_byte)
  then show ?case
    by (simp add: quote_from_bytes_def)
qed

lemma quote_byte_ascii: "b < 256 \<Longrightarrow> list_all isascii (quote_byte b)"
  by (auto simp: quote_byte_def is_safe_def isascii_def hexdigit_def)

lemma quote_from_bytes_ascii:
  "list_all (\<lambda>b. b < 256) bs \<Longrightarrow> list_all isascii (quote_from_bytes bs)"
  by (induction bs) (simp_all add: quote_from_bytes_def quote_byte_ascii)

lemma unquote_to_bytes_plain: "37 \<notin> set q \<Longrightarrow> unquote_to_bytes q = q"
  by (induction q) auto

lemma utf8_decode_ascii: "list_all isascii q \<Longrightarrow> utf8_decode q = q"
  by (induction q) (auto simp: isascii_def)

lemma unquote_ascii:
  assumes "list_all isascii q"
  shows "unquote q = utf8_decode (unquote_to_bytes q)"
proof (cases "37 \<in> set q")
  case False
  then show ?thesis
    using assms by (simp add: unquote_def unquote_to_bytes_plain utf8_decode_ascii)
next
  case True
  then obtain c cs where q: "q = c # cs"
    by (cases q) auto
  from assms q have c: "isascii c" and cs: "list_all isascii cs"
    by simp_all
  have tw: "takeWhile isascii (c # cs) = c # cs"
    using c cs by (simp add: list_all_iff)
  have dw: "dropWhile isascii cs = []"
    using cs by (simp add: list_all_iff)
  have "unquote_runs (c # cs) = utf8_decode (unquote_to_bytes (c # cs))"
    using c by (simp only: unquote_runs.simps tw dw if_True append_Nil2)
  with True q show ?thesis
    by (simp add: unquote_def)
qed

lemma quote_round_trip:
  assumes "list_all is_scalar s"
  shows "\<exists>q. quote s = Inr q \<and> unquote q = s"
proof -
  from utf8_round_trip [OF assms] obtain bs
    where bs: "utf8_encode s = Inr bs" "utf8_decode bs = s" "list_all (\<lambda>b. b < 256) bs"
    by blast
  have "unquote (quote_from_bytes bs) = utf8_decode (unquote_to_bytes (quote_from_bytes bs))"
    by (rule unquote_ascii) (rule quote_from_bytes_ascii [OF bs(3)])
  also have "\<dots> = s"
    by (simp add: unquote_to_bytes_quote [OF bs(3)] bs(2))
  finally show ?thesis
    using bs(1) by (simp add: quote_def)
qed

lemma utf8_encode_surrogate:
  "list_ex is_surrogate s \<Longrightarrow> utf8_encode s = Inl UnicodeEncodeError"
  by (induction s) (auto split: sum.splits)

lemmas quote_eval = x_intent_url_def quote_def quote_from_bytes_def quote_byte_def is_safe_def
  hexdigit_def utf8_encode_char_def is_surrogate_def intent_prefix_def py_def
  unquote_def isascii_def is_hexdig_def hexval_def

lemma x_intent_url_example:
  "x_intent_url (py ''a b&c'') = Inr (py ''https://twitter.com/intent/tweet?text=a%20b%26c'')"
  by (simp add: quote_eval)

lemma unquote_example: "unquote (py ''a%20b%26c'') = py ''a b&c''"
  by (simp add: quote_eval)

text \<open>
  C8, as the code has it. For every text of Unicode scalar values, \<open>x_intent_url\<close>
  returns the fixed compose-intent URL followed by the text as \<open>quote\<close> percent-encodes
  it, and \<open>unquote\<close> of that encoded part is the text again. For \<open>a b&c\<close> the encoded
  part is \<^verbatim>\<open>a%20b%26c\<close>.
\<close>

theorem x_intent_url_round_trip:
  "(list_all is_scalar tweet_text \<longrightarrow>
      (\<exists>encoded. quote tweet_text = Inr encoded
          \<and> x_intent_url tweet_text = Inr (intent_prefix @ encoded)
          \<and> unquote encoded = tweet_text))
   \<and> x_intent_url (py ''a b&c'') = Inr (intent_prefix @ py ''a%20b%26c'')
   \<and> unquote (py ''a%20b%26c'') = py ''a b&c''"
proof -
  have "\<exists>encoded. quote tweet_text = Inr encoded
          \<and> x_intent_url tweet_text = Inr (intent_prefix @ encoded)
          \<and> unquote encoded = tweet_text" if "list_all is_scalar tweet_text"
  proof -
    from quote_round_trip [OF that] obtain q where "quote tweet_text = Inr q" "unquote q = tweet_text"
      by blast
    then show ?thesis
      by (simp add: x_intent_url_def)
  qed
  moreover have "x_intent_url (py ''a b&c'') = Inr (intent_prefix @ py ''a%20b%26c'')"
    using x_intent_url_example by (simp add: intent_prefix_def py_def)
  ultimately show ?thesis
    using unquote_example by blast
qed

theorem x_intent_url_round_trip_witness:
  "list_all is_scalar (py ''a b&c'')
   \<and> (\<exists>encoded. quote (py ''a b&c'') = Inr encoded
         \<and> x_intent_url (py ''a b&c'') = Inr (intent_prefix @ encoded)
         \<and> unquote encoded = py ''a b&c'')"
proof -
  have "list_all is_scalar (py ''a b&c'')"
    by (simp add: is_scalar_def is_surrogate_def py_def)
  with x_intent_url_round_trip [of "py ''a b&c''"] show ?thesis
    by blast
qed

text \<open>
  On a text that holds a surrogate code point no URL is produced: \<open>quote\<close> encodes with
  \<open>errors='strict'\<close> and raises \<open>UnicodeEncodeError\<close>.
\<close>

theorem x_intent_url_surrogate:
  "x_intent_url [0xD800] = Inl UnicodeEncodeError
   \<and> \<not> (\<exists>url. x_intent_url [0xD800] = Inr url)"
  by (simp add: x_intent_url_def quote_def is_surrogate_def)

subsection \<open>The summarizer\<close>

lemma comprehension_spec: "map stripped (filter keeps xs) = spec_clean xs"
proof (induction xs)
  case Nil
  then show ?case
    by (simp add: spec_clean_def string_entries_def)
next
  case (Cons t xs)
  then show ?case
    by (cases t)
       (simp_all add: spec_clean_def string_entries_def keeps_def stripped_def)
qed

lemma parse_tweets_array:
  assumes "json_loads (strip body) = Inr (JObject d)"
    and "map_of d (py ''tweets'') = Some (JArray xs)"
  shows "parse_tweets body = Inr (take 3 (spec_clean xs))"
  using assms
  by (simp add: parse_tweets_def try_tweets_def py_get_def py_iter_def comprehension_spec)

lemma parse_tweets_soft:
  assumes "(\<exists>e. json_loads (strip body) = Inl e)
           \<or> (\<exists>v. json_loads (strip body) = Inr v \<and> \<not> has_tweets_key v)"
  shows "parse_tweets body = Inr []"
proof -
  have "try_tweets (strip body) = JArray []"
  proof (cases "json_loads (strip body)")
    case (Inl e)
    then show ?thesis
      by (simp add: try_tweets_def)
  next
    case (Inr v)
    with assms have "\<not> has_tweets_key v"
      by auto
    then have "py_get v (py ''tweets'') (JArray []) = Inl AttributeError
               \<or> py_get v (py ''tweets'') (JArray []) = Inr (JArray [])"
      by (cases v) (auto simp: py_get_def has_tweets_key_def)
    with Inr show ?thesis
      by (auto simp: try_tweets_def)
  qed
  then show ?thesis
    by (simp add: parse_tweets_def py_iter_def)
qed

lemmas json_eval = json_loads_def py_def skip_ws_def is_json_ws_def match_number_def scan_int_def
  scan_frac_def scan_exp_def exp_digits_def is_digit_def digits_value_def int_max_str_digits_def
  hex4_def backslash_def cons_char_def is_hexdig_def hexval_def dict_of_pairs_def
  strip_def strip_with_def lstrip_with_def rstrip_with_def isspace_def

lemma loads_body_four:
  "json_loads (strip body_four)
     = Inr (JObject [(py ''tweets'',
              JArray [JString (py ''x''), JString (py ''y''), JString (py ''z''), JString (py ''w'')])])"
  by (simp add: body_four_def json_eval)

lemma loads_body_blank:
  "json_loads (strip body_blank)
     = Inr (JObject [(py ''tweets'',
              JArray [JString [], JString (py ''  ''), JString (py ''valid one'')])])"
  by (simp add: body_blank_def json_eval)

lemma loads_body_number:
  "json_loads (strip body_number) = Inr (JObject [(py ''tweets'', JInt 5)])"
  by (simp add: body_number_def json_eval)

lemma loads_body_prose: "json_loads (strip body_prose) = Inl JSONDecodeError"
  by (simp add: body_prose_def json_eval)

lemma loads_body_other_key:
  "json_loads (strip body_other_key)
     = Inr (JObject [(py ''posts'',
              JArray [JString (py ''x''), JString (py ''y''), JString (py ''z'')])])"
  by (simp add: body_other_key_def json_eval)

lemmas clean_eval = spec_clean_def string_entries_def py_def
  strip_def strip_with_def lstrip_with_def rstrip_with_def isspace_def

text \<open>
  C6. When the text of the response, trimmed, parses as a JSON object whose \<open>tweets\<close>
  is an array, \<open>generate_3_tweets\<close> returns the first three of the entries that are
  strings and not empty after trimming, each trimmed. The body with four entries
  gives exactly the first three, and the body with an empty and a blank entry gives
  the one entry left.
\<close>

theorem generate_3_tweets_array:
  "(respond model transcript = Inr body
      \<and> json_loads (strip body) = Inr (JObject d)
      \<and> map_of d (py ''tweets'') = Some (JArray xs)
    \<longrightarrow> generate_3_tweets respond transcript model = Inr (take 3 (spec_clean xs)))
   \<and> generate_3_tweets (\<lambda>m t. Inr body_four) transcript model
       = Inr [py ''x'', py ''y'', py ''z'']
   \<and> generate_3_tweets (\<lambda>m t. Inr body_blank) transcript model = Inr [py ''valid one'']"
proof -
  have four: "parse_tweets body_four = Inr [py ''x'', py ''y'', py ''z'']"
    using parse_tweets_array [OF loads_body_four] by (simp add: clean_eval)
  have blank: "parse_tweets body_blank = Inr [py ''valid one'']"
    using parse_tweets_array [OF loads_body_blank] by (simp add: clean_eval)
  show ?thesis
    using four blank by (auto simp: generate_3_tweets_def parse_tweets_array)
qed

theorem generate_3_tweets_array_witness:
  "(\<lambda>m t. Inr body_four :: exn + pystr) (py ''gpt-4.1-mini'') (py ''a transcript'') = Inr body_four
   \<and> json_loads (strip body_four)
       = Inr (JObject [(py ''tweets'',
                JArray [JString (py ''x''), JString (py ''y''), JString (py ''z''), JString (py ''w'')])])
   \<and> generate_3_tweets (\<lambda>m t. Inr body_four) (py ''a transcript'') (py ''gpt-4.1-mini'')
       = Inr (take 3 (spec_clean
                [JString (py ''x''), JString (py ''y''), JString (py ''z''), JString (py ''w'')]))"
  using generate_3_tweets_array
      [of "\<lambda>m t. Inr body_four" "py ''gpt-4.1-mini''" "py ''a transcript''" body_four
          "[(py ''tweets'',
              JArray [JString (py ''x''), JString (py ''y''), JString (py ''z''), JString (py ''w'')])]"
          "[JString (py ''x''), JString (py ''y''), JString (py ''z''), JString (py ''w'')]"]
    loads_body_four
  by simp

text \<open>
  C7. When the text of the response, trimmed, does not parse as JSON, or parses to a
  value that is no object with the key \<open>tweets\<close>, \<open>generate_3_tweets\<close> returns the empty
  list and raises nothing: the \<open>except Exception\<close> clause catches the decoder's error and
  the \<open>AttributeError\<close> of a value without \<open>get\<close>.
\<close>

theorem generate_3_tweets_soft_degrade:
  "(respond model transcript = Inr body
      \<and> ((\<exists>e. json_loads (strip body) = Inl e)
          \<or> (\<exists>v. json_loads (strip body) = Inr v \<and> \<not> has_tweets_key v))
    \<longrightarrow> generate_3_tweets respond transcript model = Inr [])
   \<and> generate_3_tweets (\<lambda>m t. Inr body_prose) transcript model = Inr []
   \<and> generate_3_tweets (\<lambda>m t. Inr body_other_key) transcript model = Inr []"
proof -
  have prose: "parse_tweets body_prose = Inr []"
    by (rule parse_tweets_soft) (simp add: loads_body_prose)
  have other: "parse_tweets body_other_key = Inr []"
    by (rule parse_tweets_soft) (simp add: loads_body_other_key has_tweets_key_def py_def)
  show ?thesis
    using prose other parse_tweets_soft [of body]
    by (auto simp: generate_3_tweets_def)
qed

theorem generate_3_tweets_soft_degrade_witness:
  "json_loads (strip body_prose) = Inl JSONDecodeError
   \<and> generate_3_tweets (\<lambda>m t. Inr body_prose) (py ''a transcript'') (py ''gpt-4.1-mini'') = Inr []"
  using generate_3_tweets_soft_degrade
      [of "\<lambda>m t. Inr body_prose" "py ''gpt-4.1-mini''" "py ''a transcript''" body_prose]
    loads_body_prose
  by simp

text \<open>
  C10. The body \<^verbatim>\<open>{"tweets": 5}\<close> parses as a JSON object whose \<open>tweets\<close> is a number,
  neither a list nor a string; the comprehension of line 105 stands outside the \<open>try\<close>
  block, and iterating the number raises a \<open>TypeError\<close> that nothing catches.
\<close>

theorem generate_3_tweets_not_iterable:
  "json_loads (strip body_number) = Inr (JObject [(py ''tweets'', JInt 5)])
   \<and> generate_3_tweets (\<lambda>m t. Inr body_number) transcript model = Inl TypeError"
  by (simp add: loads_body_number generate_3_tweets_def parse_tweets_def try_tweets_def
        py_get_def py_iter_def)

theorem generate_3_tweets_not_iterable_witness:
  "generate_3_tweets (\<lambda>m t. Inr body_number) (py ''a transcript'') (py ''gpt-4.1-mini'')
     = Inl TypeError"
  using generate_3_tweets_not_iterable [of "py ''a transcript''" "py ''gpt-4.1-mini''"]
  by simp

subsection \<open>The transcript preview\<close>

lemma truncation_marker_length: "length truncation_marker = 3"
  by (simp add: truncation_marker_def py_def)

text \<open>
  C9. The preview starts with the first 2000 characters of the transcript; what follows
  them is the truncation marker when the transcript is longer than 2000 characters and
  nothing otherwise, so the marker is there if and only if the transcript is longer than
  2000 characters, and a transcript of at most 2000 characters is shown unchanged.
\<close>

theorem transcript_preview_spec:
  "take 2000 (transcript_preview t) = take 2000 t
   \<and> (drop 2000 (transcript_preview t) = truncation_marker \<longleftrightarrow> 2000 < length t)
   \<and> (drop 2000 (transcript_preview t) = [] \<longleftrightarrow> length t \<le> 2000)
   \<and> (length t \<le> 2000 \<longrightarrow> transcript_preview t = t)
   \<and> (2000 < length t \<longrightarrow> transcript_preview t = take 2000 t @ truncation_marker)"
proof -
  have marker: "truncation_marker \<noteq> []"
    using truncation_marker_length by auto
  show ?thesis
  proof (cases "2000 < length t")
    case True
    then show ?thesis
      using marker by (simp add: transcript_preview_def min_def)
  next
    case False
    then show ?thesis
      using marker by (auto simp add: transcript_preview_def)
  qed
qed

theorem transcript_preview_spec_witness:
  "transcript_preview (replicate 2001 120) = replicate 2000 120 @ py ''...''
   \<and> transcript_preview (py ''short transcript'') = py ''short transcript''"
proof -
  have long: "2000 < length (replicate 2001 (120::nat))"
    by simp
  have short: "length (py ''short transcript'') \<le> 2000"
    by (simp add: py_def)
  from transcript_preview_spec [of "replicate 2001 120"] long
  have "transcript_preview (replicate 2001 120) = take 2000 (replicate 2001 120) @ truncation_marker"
    by blast
  moreover from transcript_preview_spec [of "py ''short transcript''"] short
  have "transcript_preview (py ''short transcript'') = py ''short transcript''"
    by blast
  ultimately show ?thesis
    by (simp add: truncation_marker_def)
qed

subsection \<open>The JSON scanner consumes its input\<close>

text \<open>
  Every successful call of the scanner returns a rest that is shorter than its input.
  So the comparisons of lengths in \<open>array_items\<close> and \<open>object_pairs\<close> hold whenever they
  are reached, and the two functions satisfy the equations without them.
\<close>

declare scanstring.simps [simp del] scan_once.simps [simp del]
  array_items.simps [simp del] object_pairs.simps [simp del]

lemma cons_char_Inr:
  "cons_char c res = Inr (t, r) \<longleftrightarrow> (\<exists>t'. res = Inr (t', r) \<and> t = c # t')"
  by (cases res) (auto simp: cons_char_def)

text \<open>One step of \<open>scanstring\<close>: a successful scan is the closing quote, or a character or
  escape followed by a successful scan of a shorter rest.\<close>

lemma scanstring_step:
  assumes "scanstring (c # cs) = Inr (t, r)"
  shows "(c = 34 \<and> t = [] \<and> r = cs)
         \<or> (\<exists>x s' t'. length s' < length (c # cs) \<and> scanstring s' = Inr (t', r) \<and> t = x # t')"
proof -
  have fin: "?thesis"
    if "length s' < length (c # cs)" "scanstring s' = Inr (t', r)" "t = x # t'" for s' t' x
    using that by blast
  show ?thesis
  proof (cases "c = 34")
    case True
    with assms show ?thesis
      by (simp add: scanstring.simps)
  next
    case quote: False
    show ?thesis
    proof (cases "c = 92")
      case False
      with quote assms obtain t' where "scanstring cs = Inr (t', r)" "t = c # t'"
        by (auto simp: scanstring.simps cons_char_Inr split: if_splits)
      then show ?thesis
        by (intro fin [of cs t' c]) simp_all
    next
      case True
      with quote assms obtain esc r0 where cs: "cs = esc # r0"
        by (cases cs) (auto simp: scanstring.simps)
      show ?thesis
      proof (cases "esc = 117")
        case False
        with quote True cs assms obtain ch t' where "scanstring r0 = Inr (t', r)" "t = ch # t'"
          by (auto simp: scanstring.simps cons_char_Inr split: option.splits)
        with cs show ?thesis
          by (intro fin [of r0 t' ch]) simp_all
      next
        case u: True
        with quote True cs assms obtain uni r1 where h: "hex4 r0 = Some (uni, r1)"
          by (auto simp: scanstring.simps split: option.splits)
        have l1: "length r1 < length r0"
          using h by (rule hex4_length)
        show ?thesis
        proof (cases "0xD800 \<le> uni \<and> uni \<le> 0xDBFF \<and> take 2 r1 = [92, 117]")
          case False
          with quote True cs u h assms obtain t' where "scanstring r1 = Inr (t', r)" "t = uni # t'"
            by (auto simp: scanstring.simps cons_char_Inr)
          with l1 cs show ?thesis
            by (intro fin [of r1 t' uni]) simp_all
        next
          case pair: True
          with quote True cs u h assms obtain uni2 r2 where h2: "hex4 (drop 2 r1) = Some (uni2, r2)"
            by (auto simp: scanstring.simps split: option.splits)
          have l2: "length r2 < length r1"
            using hex4_length [OF h2] by simp
          from quote True cs u h pair h2 assms obtain x s' t'
            where "s' = r1 \<or> s' = r2" "scanstring s' = Inr (t', r)" "t = x # t'"
            by (auto simp: scanstring.simps cons_char_Inr split: if_splits)
          with l1 l2 cs show ?thesis
            by (intro fin [of s' t' x]) auto
        qed
      qed
    qed
  qed
qed

lemma scanstring_shorter: "scanstring s = Inr (t, r) \<Longrightarrow> length r < length s"
proof (induction "length s" arbitrary: s t rule: less_induct)
  case less
  show ?case
  proof (cases s)
    case Nil
    with less.prems show ?thesis
      by (simp add: scanstring.simps)
  next
    case (Cons c cs)
    from scanstring_step [OF less.prems [unfolded Cons]] show ?thesis
    proof
      assume "c = 34 \<and> t = [] \<and> r = cs"
      with Cons show ?thesis
        by simp
    next
      assume "\<exists>x s' t'. length s' < length (c # cs) \<and> scanstring s' = Inr (t', r) \<and> t = x # t'"
      then obtain s' t' where s': "length s' < length (c # cs)" "scanstring s' = Inr (t', r)"
        by blast
      from less.hyps [OF _ s'(2)] s'(1) Cons show ?thesis
        by simp
    qed
  qed
qed

lemma scan_int_shorter: "scan_int s = Some (ds, r) \<Longrightarrow> length r < length s"
  by (auto simp: scan_int_def split: list.splits if_splits
        intro: le_imp_less_Suc length_dropWhile_le)

lemma scan_frac_shorter: "scan_frac s = (f, r) \<Longrightarrow> length r \<le> length s"
  by (auto simp: scan_frac_def split: list.splits if_splits
        intro: le_SucI length_dropWhile_le)

lemma exp_digits_shorter: "exp_digits s = Some (t, r) \<Longrightarrow> length r \<le> length s"
  by (auto simp: exp_digits_def split: list.splits if_splits
        intro: le_SucI length_dropWhile_le)

lemma scan_exp_shorter: "scan_exp s = (e, r) \<Longrightarrow> length r \<le> length s"
  by (auto simp: scan_exp_def split: list.splits if_splits option.splits
        dest!: exp_digits_shorter)

lemma match_number_shorter:
  assumes "match_number s = Some (Inr (v, r))"
  shows "length r < length s"
proof -
  from assms obtain c cs where s: "s = c # cs"
    by (cases s) (auto simp: match_number_def)
  from assms s obtain ds s2 where i: "scan_int (if c = 45 then cs else s) = Some (ds, s2)"
    by (auto simp: match_number_def split: option.splits)
  obtain f s3 where f: "scan_frac s2 = (f, s3)"
    by (cases "scan_frac s2")
  obtain e s4 where e: "scan_exp s3 = (e, s4)"
    by (cases "scan_exp s3")
  from assms s i f e have "r = s4"
    by (auto simp: match_number_def split: if_splits)
  moreover have "length s2 < length s"
    using scan_int_shorter [OF i] s by (auto split: if_splits)
  ultimately show ?thesis
    using scan_frac_shorter [OF f] scan_exp_shorter [OF e] by simp
qed

lemma skip_ws_le: "length (skip_ws s) \<le> length s"
  by (simp add: skip_ws_def length_dropWhile_le)

lemma scan_once_step:
  assumes IHa: "\<And>s' vs r. length s' < length s \<Longrightarrow> array_items s' = Inr (vs, r) \<Longrightarrow> length r < length s'"
    and IHo: "\<And>s' ps r. length s' < length s \<Longrightarrow> object_pairs s' = Inr (ps, r) \<Longrightarrow> length r < length s'"
    and res: "scan_once s = Inr (v, r)"
  shows "length r < length s"
proof (cases s)
  case Nil
  with res show ?thesis
    by (simp add: scan_once.simps)
next
  case (Cons c cs)
  note res' = res [unfolded Cons scan_once.simps]
  show ?thesis
  proof (cases "c = 34")
    case True
    with res' obtain t where "scanstring cs = Inr (t, r)"
      by (auto split: sum.splits)
    from scanstring_shorter [OF this] Cons show ?thesis
      by simp
  next
    case q: False
    show ?thesis
    proof (cases "c = 123")
      case True
      with q res' obtain d r0 where sk: "skip_ws cs = d # r0"
        by (cases "skip_ws cs") auto
      have l0: "length r0 < length cs"
        using sk by (rule skip_ws_length)
      show ?thesis
      proof (cases "d = 125")
        case True
        with q \<open>c = 123\<close> sk res' have "r = r0"
          by simp
        with l0 Cons show ?thesis
          by simp
      next
        case False
        with q \<open>c = 123\<close> sk res' obtain ps where "object_pairs r0 = Inr (ps, r)"
          by (auto split: if_splits sum.splits)
        from IHo [OF _ this] l0 Cons show ?thesis
          by simp
      qed
    next
      case b: False
      show ?thesis
      proof (cases "c = 91")
        case True
        with q b res' obtain d r0 where sk: "skip_ws cs = d # r0"
          by (cases "skip_ws cs") auto
        have l0: "length r0 < length cs"
          using sk by (rule skip_ws_length)
        have l1: "length (d # r0) < length s"
          using sk skip_ws_le [of cs] Cons by simp
        show ?thesis
        proof (cases "d = 93")
          case True
          with q b \<open>c = 91\<close> sk res' have "r = r0"
            by simp
          with l0 Cons show ?thesis
            by simp
        next
          case False
          with q b \<open>c = 91\<close> sk res' obtain vs where "array_items (d # r0) = Inr (vs, r)"
            by (auto split: if_splits sum.splits)
          from IHa [OF l1 this] l1 show ?thesis
            by simp
        qed
      next
        case False
        with q b res' consider "r = drop 4 (c # cs)" | "r = drop 5 (c # cs)" | "r = drop 3 (c # cs)"
          | "r = drop 8 (c # cs)" | "r = drop 9 (c # cs)" | v' where "match_number (c # cs) = Some (Inr (v', r))"
          by (auto split: if_splits option.splits sum.splits)
        then show ?thesis
        proof cases
          case 6
          from match_number_shorter [OF this] Cons show ?thesis
            by simp
        qed (use Cons in simp_all)
      qed
    qed
  qed
qed

lemma array_items_step:
  assumes IHs: "\<And>v r. scan_once s = Inr (v, r) \<Longrightarrow> length r < length s"
    and IHa: "\<And>s' vs r. length s' < length s \<Longrightarrow> array_items s' = Inr (vs, r) \<Longrightarrow> length r < length s'"
    and res: "array_items s = Inr (vs, r)"
  shows "length r < length s"
proof -
  note res' = res [unfolded array_items.simps [of s]]
  from res' obtain v r0 where so: "scan_once s = Inr (v, r0)"
    by (auto split: sum.splits)
  from res' so obtain d r1 where sk: "skip_ws r0 = d # r1"
    by (cases "skip_ws r0") auto
  have l0: "length r0 < length s"
    using so by (rule IHs)
  have l1: "length r1 < length r0"
    using sk by (rule skip_ws_length)
  show ?thesis
  proof (cases "d = 93")
    case True
    with res' so sk have "r = r1"
      by simp
    with l0 l1 show ?thesis
      by simp
  next
    case False
    with res' so sk obtain vs' where g: "length (skip_ws r1) < length s"
      and a: "array_items (skip_ws r1) = Inr (vs', r)"
      by (auto split: if_splits sum.splits)
    from IHa [OF g a] g show ?thesis
      by simp
  qed
qed

lemma object_pairs_step:
  assumes IHs: "\<And>s' v r. length s' < length s \<Longrightarrow> scan_once s' = Inr (v, r) \<Longrightarrow> length r < length s'"
    and IHo: "\<And>s' ps r. length s' < length s \<Longrightarrow> object_pairs s' = Inr (ps, r) \<Longrightarrow> length r < length s'"
    and res: "object_pairs s = Inr (ps, r)"
  shows "length r < length s"
proof -
  note res' = res [unfolded object_pairs.simps [of s]]
  from res' obtain key r0 where ss: "scanstring s = Inr (key, r0)"
    by (auto split: sum.splits)
  from res' ss obtain d r1 where sk: "skip_ws r0 = d # r1"
    by (cases "skip_ws r0") auto
  from res' ss sk have g: "length (skip_ws r1) < length s"
    by (auto split: if_splits)
  with res' ss sk obtain v r2 where so: "scan_once (skip_ws r1) = Inr (v, r2)"
    by (auto split: if_splits sum.splits)
  from res' ss sk g so obtain d2 r3 where sk2: "skip_ws r2 = d2 # r3"
    by (cases "skip_ws r2") (auto split: if_splits)
  have l2: "length r2 < length (skip_ws r1)"
    using IHs [OF g so] .
  have l3: "length r3 < length r2"
    using sk2 by (rule skip_ws_length)
  show ?thesis
  proof (cases "d2 = 125")
    case True
    with res' ss sk g so sk2 have "r = r3"
      by (auto split: if_splits)
    with l2 l3 g show ?thesis
      by simp
  next
    case False
    with res' ss sk g so sk2 obtain d3 r4 where sk3: "skip_ws r3 = d3 # r4"
      by (cases "skip_ws r3") (auto split: if_splits)
    with False res' ss sk g so sk2 obtain ps' where g4: "length r4 < length s"
      and o: "object_pairs r4 = Inr (ps', r)"
      by (auto split: if_splits sum.splits)
    from IHo [OF g4 o] g4 show ?thesis
      by simp
  qed
qed

lemma scan_once_shorter_all:
  "(\<forall>v r. scan_once s = Inr (v, r) \<longrightarrow> length r < length s)
   \<and> (\<forall>vs r. array_items s = Inr (vs, r) \<longrightarrow> length r < length s)
   \<and> (\<forall>ps r. object_pairs s = Inr (ps, r) \<longrightarrow> length r < length s)"
proof (induction "length s" arbitrary: s rule: less_induct)
  case less
  have s: "length r < length s" if "scan_once s = Inr (v, r)" for v r
    using that by (rule scan_once_step [rotated 2]) (use less.hyps in blast)+
  have a: "length r < length s" if "array_items s = Inr (vs, r)" for vs r
    using that by (rule array_items_step [rotated 2]) (use s less.hyps in blast)+
  have o: "length r < length s" if "object_pairs s = Inr (ps, r)" for ps r
    using that by (rule object_pairs_step [rotated 2]) (use less.hyps in blast)+
  from s a o show ?case
    by blast
qed

lemma scan_once_shorter: "scan_once s = Inr (v, r) \<Longrightarrow> length r < length s"
  using scan_once_shorter_all by blast

lemma array_items_shorter: "array_items s = Inr (vs, r) \<Longrightarrow> length r < length s"
  using scan_once_shorter_all by blast

lemma object_pairs_shorter: "object_pairs s = Inr (ps, r) \<Longrightarrow> length r < length s"
  using scan_once_shorter_all by blast

lemma array_items_guard:
  assumes "scan_once s = Inr (v, r)" and "skip_ws r = d # r1"
  shows "length (skip_ws r1) < length s"
  using scan_once_shorter [OF assms(1)] skip_ws_length [OF assms(2)] skip_ws_le [of r1]
  by simp

lemma array_items_unguarded:
  "array_items s =
     (case scan_once s of
        Inl e \<Rightarrow> Inl e
      | Inr (v, r) \<Rightarrow>
          (case skip_ws r of
             [] \<Rightarrow> Inl JSONDecodeError
           | d # r1 \<Rightarrow>
               if d = 93 then Inr ([v], r1)
               else if d = 44 then
                 (case array_items (skip_ws r1) of
                    Inl e \<Rightarrow> Inl e
                  | Inr (vs, r2) \<Rightarrow> Inr (v # vs, r2))
               else Inl JSONDecodeError))"
  by (subst array_items.simps) (auto split: sum.splits list.splits dest: array_items_guard)

lemma object_pairs_guard:
  assumes "scanstring s = Inr (key, r0)" and "skip_ws r0 = d # r1"
  shows "length (skip_ws r1) < length s"
  using scanstring_shorter [OF assms(1)] skip_ws_length [OF assms(2)] skip_ws_le [of r1]
  by simp

lemma object_pairs_guard2:
  assumes "scanstring s = Inr (key, r0)" and "skip_ws r0 = d # r1"
    and "scan_once (skip_ws r1) = Inr (v, r2)" and "skip_ws r2 = d2 # r3"
    and "skip_ws r3 = d3 # r4"
  shows "length r4 < length s"
  using object_pairs_guard [OF assms(1,2)] scan_once_shorter [OF assms(3)]
    skip_ws_length [OF assms(4)] skip_ws_length [OF assms(5)]
  by simp

lemma object_pairs_unguarded:
  "object_pairs s =
     (case scanstring s of
        Inl e \<Rightarrow> Inl e
      | Inr (key, r0) \<Rightarrow>
          (case skip_ws r0 of
             [] \<Rightarrow> Inl JSONDecodeError
           | d # r1 \<Rightarrow>
               if d \<noteq> 58 then Inl JSONDecodeError
               else
                 (case scan_once (skip_ws r1) of
                    Inl e \<Rightarrow> Inl e
                  | Inr (v, r2) \<Rightarrow>
                      (case skip_ws r2 of
                         [] \<Rightarrow> Inl JSONDecodeError
                       | d2 # r3 \<Rightarrow>
                           if d2 = 125 then Inr ([(key, v)], r3)
                           else if d2 = 44 then
                             (case skip_ws r3 of
                                [] \<Rightarrow> Inl JSONDecodeError
                              | d3 # r4 \<Rightarrow>
                                  if d3 = 34 then
                                    (case object_pairs r4 of
                                       Inl e \<Rightarrow> Inl e
                                     | Inr (ps, r5) \<Rightarrow> Inr ((key, v) # ps, r5))
                                  else Inl JSONDecodeError)
                           else Inl JSONDecodeError))))"
  by (subst object_pairs.simps)
    (auto split: sum.splits list.splits dest: object_pairs_guard object_pairs_guard2)

end
